theory Spec2Isabelle
  imports Complex_Main "HOL-Library.Stream" "HOL-Library.Extended_Nat"
begin

section \<open>Data model (pathfinding.service.ts, building.service.ts)\<close>

text \<open>
  \<^verbatim>\<open>interface Position { x: number; y: number; floor: number; }\<close>
  Coordinates are integers throughout the program (grid indices and offsets of them).
\<close>

record Position =
  pos_x :: int
  pos_y :: int
  pos_floor :: int

text \<open>\<^verbatim>\<open>enum CellType { WALKABLE = 0, WALL = 1, FIRE = 2, STAIRS = 3, EXIT = 4 }\<close>\<close>

datatype CellType = WALKABLE | WALL | FIRE | STAIRS | EXIT

text \<open>
  \<^verbatim>\<open>buildingMap: number[][][]\<close>, indexed \<^verbatim>\<open>buildingMap[x][y][floor]\<close>. The type
  allows ragged arrays; the building generator only produces rectangular ones.
\<close>

type_synonym grid = "CellType list list list"

text \<open>
  The errors the modelled code can raise: the \<^verbatim>\<open>TypeError\<close> of reading an index of
  \<^verbatim>\<open>undefined\<close>, and the two \<^verbatim>\<open>Error\<close>s thrown by \<^verbatim>\<open>addPerson\<close>.
\<close>

datatype error = TypeError | InvalidPosition | NotWalkable

section \<open>Array reads\<close>

text \<open>A JavaScript array read \<^verbatim>\<open>xs[i]\<close>: \<^verbatim>\<open>undefined\<close> (here \<open>None\<close>) outside the array.\<close>

definition at_index :: "'a list \<Rightarrow> int \<Rightarrow> 'a option" where
  "at_index xs i = (if 0 \<le> i \<and> i < int (length xs) then Some (xs ! nat i) else None)"

text \<open>
  \<^verbatim>\<open>buildingMap[x][y][floor]\<close>: reading an index of \<^verbatim>\<open>undefined\<close> raises a
  \<^verbatim>\<open>TypeError\<close>; only the last read may yield \<^verbatim>\<open>undefined\<close>.
\<close>

definition readCell :: "grid \<Rightarrow> int \<Rightarrow> int \<Rightarrow> int \<Rightarrow> error + CellType option" where
  "readCell m x y f =
     (case at_index m x of
        None \<Rightarrow> Inl TypeError
      | Some col \<Rightarrow>
          (case at_index col y of
             None \<Rightarrow> Inl TypeError
           | Some cs \<Rightarrow> Inr (at_index cs f)))"

section \<open>Search primitives (pathfinding.service.ts)\<close>

text \<open>
  \<^verbatim>\<open>isValidMapPosition\<close>. The conjunction is evaluated left to right in the source, so
  \<^verbatim>\<open>buildingMap[0]\<close> and \<^verbatim>\<open>buildingMap[0][0]\<close> are only read when they exist; where
  they do not, an earlier conjunct is already false.
\<close>

definition isValidMapPosition :: "int \<Rightarrow> int \<Rightarrow> int \<Rightarrow> grid \<Rightarrow> bool" where
  "isValidMapPosition x y f m \<longleftrightarrow>
     x \<ge> 0 \<and> x < int (length m) \<and>
     y \<ge> 0 \<and> y < int (length (m ! 0)) \<and>
     f \<ge> 0 \<and> f < int (length (m ! 0 ! 0))"

definition isValidPosition :: "int \<Rightarrow> int \<Rightarrow> int \<Rightarrow> grid \<Rightarrow> error + bool" where
  "isValidPosition x y f m =
     (if \<not> isValidMapPosition x y f m then Inr False
      else (case readCell m x y f of
              Inl e \<Rightarrow> Inl e
            | Inr cellType \<Rightarrow>
                Inr (cellType = Some WALKABLE \<or> cellType = Some STAIRS \<or> cellType = Some EXIT)))"

definition directions :: "(int \<times> int) list" where
  "directions = [(-1, -1), (-1, 0), (-1, 1), (0, -1), (0, 1), (1, -1), (1, 0), (1, 1)]"

text \<open>The first loop of \<^verbatim>\<open>getNeighbors\<close>: the 8 directions on the same floor.\<close>

fun sameFloorNeighbors :: "Position \<Rightarrow> grid \<Rightarrow> (int \<times> int) list \<Rightarrow> error + Position list" where
  "sameFloorNeighbors p m [] = Inr []"
| "sameFloorNeighbors p m ((dx, dy) # ds) =
     (case isValidPosition (pos_x p + dx) (pos_y p + dy) (pos_floor p) m of
        Inl e \<Rightarrow> Inl e
      | Inr ok \<Rightarrow>
          (case sameFloorNeighbors p m ds of
             Inl e \<Rightarrow> Inl e
           | Inr ns \<Rightarrow>
               Inr (if ok
                    then \<lparr>pos_x = pos_x p + dx, pos_y = pos_y p + dy, pos_floor = pos_floor p\<rparr> # ns
                    else ns)))"

text \<open>The second loop of \<^verbatim>\<open>getNeighbors\<close>: stairs movement to the floors below and above.\<close>

definition stairTarget :: "Position \<Rightarrow> grid \<Rightarrow> int \<Rightarrow> bool" where
  "stairTarget p m newFloor \<longleftrightarrow>
     newFloor \<ge> 0 \<and> newFloor < int (length (m ! 0 ! 0)) \<and>
     readCell m (pos_x p) (pos_y p) newFloor = Inr (Some STAIRS)"

definition stairNeighbors :: "Position \<Rightarrow> grid \<Rightarrow> error + Position list" where
  "stairNeighbors p m =
     (case readCell m (pos_x p) (pos_y p) (pos_floor p) of
        Inl e \<Rightarrow> Inl e
      | Inr c \<Rightarrow>
          (if c = Some STAIRS
           then Inr (map (\<lambda>newFloor. \<lparr>pos_x = pos_x p, pos_y = pos_y p, pos_floor = newFloor\<rparr>)
                      (filter (stairTarget p m) [pos_floor p - 1, pos_floor p + 1]))
           else Inr []))"

definition getNeighbors :: "Position \<Rightarrow> grid \<Rightarrow> error + Position list" where
  "getNeighbors p m =
     (case sameFloorNeighbors p m directions of
        Inl e \<Rightarrow> Inl e
      | Inr ns \<Rightarrow>
          (case stairNeighbors p m of
             Inl e \<Rightarrow> Inl e
           | Inr ss \<Rightarrow> Inr (ns @ ss)))"

section \<open>Vocabulary of the specification\<close>

text \<open>The cell kind at a position of the grid; \<open>None\<close> for a position outside the grid.\<close>

definition kindAt :: "grid \<Rightarrow> Position \<Rightarrow> CellType option" where
  "kindAt m p =
     (case at_index m (pos_x p) of
        None \<Rightarrow> None
      | Some col \<Rightarrow>
          (case at_index col (pos_y p) of
             None \<Rightarrow> None
           | Some cs \<Rightarrow> at_index cs (pos_floor p)))"

definition inBounds :: "grid \<Rightarrow> Position \<Rightarrow> bool" where
  "inBounds m p \<longleftrightarrow> kindAt m p \<noteq> None"

text \<open>A grid proper: every column has the same height and every cell the same number of floors.\<close>

definition rectangular :: "grid \<Rightarrow> bool" where
  "rectangular m \<longleftrightarrow>
     (\<forall>col \<in> set m. length col = length (m ! 0) \<and>
        (\<forall>cs \<in> set col. length cs = length (m ! 0 ! 0)))"

text \<open>The 8 horizontal and diagonal neighbours on the same floor.\<close>

definition adjacent8 :: "Position \<Rightarrow> Position \<Rightarrow> bool" where
  "adjacent8 p q \<longleftrightarrow>
     pos_floor q = pos_floor p \<and>
     \<bar>pos_x q - pos_x p\<bar> \<le> 1 \<and> \<bar>pos_y q - pos_y p\<bar> \<le> 1 \<and>
     (pos_x q \<noteq> pos_x p \<or> pos_y q \<noteq> pos_y p)"

definition traversable :: "CellType option \<Rightarrow> bool" where
  "traversable c \<longleftrightarrow> c = Some WALKABLE \<or> c = Some STAIRS \<or> c = Some EXIT"

text \<open>The same column one floor below or above.\<close>

definition stairStep :: "Position \<Rightarrow> Position \<Rightarrow> bool" where
  "stairStep p q \<longleftrightarrow>
     pos_x q = pos_x p \<and> pos_y q = pos_y p \<and>
     (pos_floor q = pos_floor p - 1 \<or> pos_floor q = pos_floor p + 1)"

text \<open>The neighbour relation as the specification words it.\<close>

definition legalMove :: "grid \<Rightarrow> Position \<Rightarrow> Position \<Rightarrow> bool" where
  "legalMove m p q \<longleftrightarrow>
     (adjacent8 p q \<and> traversable (kindAt m q)) \<or>
     (kindAt m p = Some STAIRS \<and> stairStep p q \<and> kindAt m q = Some STAIRS)"

text \<open>The cell reached from \<open>p\<close> by one of the 8 direction offsets.\<close>

definition shifted :: "Position \<Rightarrow> int \<times> int \<Rightarrow> Position" where
  "shifted p d = \<lparr>pos_x = pos_x p + fst d, pos_y = pos_y p + snd d, pos_floor = pos_floor p\<rparr>"

section \<open>Neighbour enumeration\<close>

lemma at_index_Some_iff:
  "at_index xs i = Some v \<longleftrightarrow> 0 \<le> i \<and> i < int (length xs) \<and> xs ! nat i = v"
  by (auto simp: at_index_def)

lemma at_index_None_iff: "at_index xs i = None \<longleftrightarrow> \<not> (0 \<le> i \<and> i < int (length xs))"
  by (simp add: at_index_def)

lemma valid_iff_kindAt:
  assumes "rectangular m"
  shows "isValidMapPosition x y f m \<longleftrightarrow> kindAt m \<lparr>pos_x = x, pos_y = y, pos_floor = f\<rparr> \<noteq> None"
proof (cases "0 \<le> x \<and> x < int (length m)")
  case False
  then show ?thesis by (auto simp: isValidMapPosition_def kindAt_def at_index_def)
next
  case True
  then have colin: "m ! nat x \<in> set m" by (intro nth_mem) auto
  with assms have lc: "length (m ! nat x) = length (m ! 0)"
    by (simp add: rectangular_def)
  show ?thesis
  proof (cases "0 \<le> y \<and> y < int (length (m ! 0))")
    case False
    with True lc show ?thesis by (auto simp: isValidMapPosition_def kindAt_def at_index_def)
  next
    case yin: True
    with lc have "m ! nat x ! nat y \<in> set (m ! nat x)" by (intro nth_mem) auto
    with assms colin have "length (m ! nat x ! nat y) = length (m ! 0 ! 0)"
      by (auto simp: rectangular_def)
    with True yin lc show ?thesis
      by (auto simp: isValidMapPosition_def kindAt_def at_index_def)
  qed
qed

lemma readCell_kindAt:
  "kindAt m \<lparr>pos_x = x, pos_y = y, pos_floor = f\<rparr> \<noteq> None \<Longrightarrow>
   readCell m x y f = Inr (kindAt m \<lparr>pos_x = x, pos_y = y, pos_floor = f\<rparr>)"
  by (auto simp: readCell_def kindAt_def split: option.splits)

lemma isValidPosition_rect:
  assumes "rectangular m"
  shows "isValidPosition x y f m = Inr (traversable (kindAt m \<lparr>pos_x = x, pos_y = y, pos_floor = f\<rparr>))"
proof (cases "isValidMapPosition x y f m")
  case True
  with assms have "kindAt m \<lparr>pos_x = x, pos_y = y, pos_floor = f\<rparr> \<noteq> None"
    by (simp add: valid_iff_kindAt)
  with True show ?thesis
    by (simp add: isValidPosition_def readCell_kindAt traversable_def)
next
  case False
  with assms have "kindAt m \<lparr>pos_x = x, pos_y = y, pos_floor = f\<rparr> = None"
    by (simp add: valid_iff_kindAt)
  with False show ?thesis
    by (simp add: isValidPosition_def traversable_def)
qed

lemma sameFloorNeighbors_rect:
  assumes "rectangular m"
  shows "sameFloorNeighbors p m ds =
         Inr (filter (\<lambda>q. traversable (kindAt m q)) (map (shifted p) ds))"
  using assms by (induction ds) (auto simp: isValidPosition_rect shifted_def)

lemma adjacent8_directions: "adjacent8 p q \<longleftrightarrow> q \<in> set (map (shifted p) directions)"
proof
  assume a: "adjacent8 p q"
  then have "pos_x q - pos_x p \<in> {-1, 0, 1}" "pos_y q - pos_y p \<in> {-1, 0, 1}"
    by (auto simp: adjacent8_def)
  moreover have "q = \<lparr>pos_x = pos_x p + (pos_x q - pos_x p), pos_y = pos_y p + (pos_y q - pos_y p), pos_floor = pos_floor p\<rparr>"
    using a by (simp add: adjacent8_def)
  ultimately show "q \<in> set (map (shifted p) directions)"
    using a by (auto simp: directions_def shifted_def adjacent8_def)
next
  assume "q \<in> set (map (shifted p) directions)"
  then show "adjacent8 p q"
    by (auto simp: directions_def shifted_def adjacent8_def)
qed


lemma readCell_xy:
  assumes "inBounds m p"
  shows "readCell m (pos_x p) (pos_y p) f = Inr (kindAt m \<lparr>pos_x = pos_x p, pos_y = pos_y p, pos_floor = f\<rparr>)"
  using assms by (auto simp: inBounds_def readCell_def kindAt_def split: option.splits)

lemma stairTarget_rect:
  assumes "rectangular m" "inBounds m p"
  shows "stairTarget p m f \<longleftrightarrow> kindAt m \<lparr>pos_x = pos_x p, pos_y = pos_y p, pos_floor = f\<rparr> = Some STAIRS"
proof -
  have "isValidMapPosition (pos_x p) (pos_y p) f m"
    if "kindAt m \<lparr>pos_x = pos_x p, pos_y = pos_y p, pos_floor = f\<rparr> = Some STAIRS"
    using that assms(1) by (simp add: valid_iff_kindAt)
  then show ?thesis
    using assms(2) by (auto simp: stairTarget_def readCell_xy isValidMapPosition_def)
qed

lemma stairNeighbors_rect:
  assumes "rectangular m" "inBounds m p"
  shows "\<exists>ss. stairNeighbors p m = Inr ss \<and>
           set ss = {q. kindAt m p = Some STAIRS \<and> stairStep p q \<and> kindAt m q = Some STAIRS}"
proof -
  have rd: "readCell m (pos_x p) (pos_y p) (pos_floor p) = Inr (kindAt m p)"
    using assms(2) by (auto simp: inBounds_def readCell_def kindAt_def split: option.splits)
  show ?thesis
  proof (cases "kindAt m p = Some STAIRS")
    case False
    then show ?thesis by (simp add: stairNeighbors_def rd)
  next
    case True
    have "set (map (\<lambda>newFloor. \<lparr>pos_x = pos_x p, pos_y = pos_y p, pos_floor = newFloor\<rparr>)
                 (filter (stairTarget p m) [pos_floor p - 1, pos_floor p + 1]))
          = {q. stairStep p q \<and> kindAt m q = Some STAIRS}" (is "?L = ?R")
    proof (intro set_eqI iffI)
      fix q assume "q \<in> ?L"
      then obtain nf where nf: "nf = pos_floor p - 1 \<or> nf = pos_floor p + 1" "stairTarget p m nf"
        and q: "q = \<lparr>pos_x = pos_x p, pos_y = pos_y p, pos_floor = nf\<rparr>"
        by (auto simp del: filter.simps)
      from nf(2) have "kindAt m q = Some STAIRS"
        using assms q by (simp add: stairTarget_rect)
      with nf(1) q show "q \<in> ?R"
        by (auto simp: stairStep_def)
    next
      fix q assume q: "q \<in> ?R"
      then have eq: "q = \<lparr>pos_x = pos_x p, pos_y = pos_y p, pos_floor = pos_floor q\<rparr>"
        by (simp add: stairStep_def)
      from q have "stairTarget p m (pos_floor q)"
        using assms eq by (simp add: stairTarget_rect)
      moreover from q have "pos_floor q \<in> set [pos_floor p - 1, pos_floor p + 1]"
        by (auto simp: stairStep_def)
      ultimately have "pos_floor q \<in> set (filter (stairTarget p m) [pos_floor p - 1, pos_floor p + 1])"
        unfolding set_filter by blast
      then have "\<lparr>pos_x = pos_x p, pos_y = pos_y p, pos_floor = pos_floor q\<rparr> \<in> ?L"
        unfolding set_map by (rule imageI)
      with eq show "q \<in> ?L" by simp
    qed
    with True show ?thesis by (simp add: stairNeighbors_def rd)
  qed
qed

lemma traversable_cases:
  "traversable c \<Longrightarrow> c \<noteq> None \<and> c \<noteq> Some WALL \<and> c \<noteq> Some FIRE"
  by (auto simp: traversable_def)

text \<open>
  Claim C2. On a rectangular grid and for an in-bounds position \<open>p\<close>,
  \<^verbatim>\<open>getNeighbors\<close> returns (without raising) exactly the legal moves from \<open>p\<close>: the
  same-floor cells among the 8 horizontal and diagonal neighbours whose kind is Walkable,
  Stairs or Exit and, when \<open>p\<close> itself is Stairs, the Stairs cells of the same column
  one floor below and above. Every returned position is in bounds and is neither Wall
  nor Fire.
\<close>

theorem getNeighbors_exact:
  assumes "rectangular m" and "inBounds m p"
  shows "\<exists>ns. getNeighbors p m = Inr ns \<and>
           set ns = {q. legalMove m p q} \<and>
           (\<forall>q \<in> set ns. inBounds m q \<and> kindAt m q \<noteq> Some WALL \<and> kindAt m q \<noteq> Some FIRE)"
proof -
  from stairNeighbors_rect [OF assms] obtain ss where
    ss: "stairNeighbors p m = Inr ss"
        "set ss = {q. kindAt m p = Some STAIRS \<and> stairStep p q \<and> kindAt m q = Some STAIRS}"
    by blast
  let ?ns = "filter (\<lambda>q. traversable (kindAt m q)) (map (shifted p) directions)"
  have gn: "getNeighbors p m = Inr (?ns @ ss)"
    by (simp add: getNeighbors_def sameFloorNeighbors_rect [OF assms(1)] ss(1))
  have "set ?ns = {q. adjacent8 p q \<and> traversable (kindAt m q)}"
    using adjacent8_directions [of p] by auto
  with ss(2) have st: "set (?ns @ ss) = {q. legalMove m p q}"
    by (auto simp: legalMove_def)
  have "inBounds m q \<and> kindAt m q \<noteq> Some WALL \<and> kindAt m q \<noteq> Some FIRE" if "legalMove m p q" for q
    using that traversable_cases [of "kindAt m q"] by (auto simp: legalMove_def inBounds_def)
  with gn st show ?thesis by blast
qed

section \<open>The positions a search can reach\<close>

text \<open>
  A finite box that holds every position \<^verbatim>\<open>getNeighbors\<close> can return, whatever the
  shape of the arrays: it bounds the searches below.
\<close>

definition cells :: "grid \<Rightarrow> Position set" where
  "cells m = {p. 0 \<le> pos_x p \<and> pos_x p < int (length m) \<and>
                 0 \<le> pos_y p \<and> pos_y p < int (sum_list (map length m)) \<and>
                 0 \<le> pos_floor p \<and> pos_floor p \<le> int (length (m ! 0 ! 0))}"

lemma finite_cells: "finite (cells m)"
proof -
  have "cells m \<subseteq> (\<lambda>(a, b, c). \<lparr>pos_x = a, pos_y = b, pos_floor = c\<rparr>) `
          ({0..<int (length m)} \<times> {0..<int (sum_list (map length m))} \<times> {0..int (length (m ! 0 ! 0))})"
  proof
    fix p assume "p \<in> cells m"
    then have "(pos_x p, pos_y p, pos_floor p) \<in>
        {0..<int (length m)} \<times> {0..<int (sum_list (map length m))} \<times> {0..int (length (m ! 0 ! 0))}"
      by (simp add: cells_def)
    moreover have "p = (\<lambda>(a, b, c). \<lparr>pos_x = a, pos_y = b, pos_floor = c\<rparr>) (pos_x p, pos_y p, pos_floor p)"
      by simp
    ultimately show "p \<in> (\<lambda>(a, b, c). \<lparr>pos_x = a, pos_y = b, pos_floor = c\<rparr>) `
          ({0..<int (length m)} \<times> {0..<int (sum_list (map length m))} \<times> {0..int (length (m ! 0 ! 0))})"
      by (rule image_eqI [rotated])
  qed
  then show ?thesis by (rule finite_subset) simp
qed

lemma column_le_sum: "n < length m \<Longrightarrow> length (m ! n) \<le> sum_list (map length m)"
  by (simp add: member_le_sum_list)

lemma valid_in_cells:
  assumes "isValidMapPosition x y f m"
  shows "\<lparr>pos_x = x, pos_y = y, pos_floor = f\<rparr> \<in> cells m"
proof -
  from assms have "0 < length m" by (auto simp: isValidMapPosition_def)
  then have "length (m ! 0) \<le> sum_list (map length m)" by (rule column_le_sum)
  with assms show ?thesis by (auto simp: isValidMapPosition_def cells_def)
qed

lemma sameFloorNeighbors_cells:
  "sameFloorNeighbors p m ds = Inr ns \<Longrightarrow> set ns \<subseteq> cells m"
proof (induction ds arbitrary: ns)
  case Nil
  then show ?case by simp
next
  case (Cons d ds)
  obtain dx dy where d: "d = (dx, dy)" by (cases d)
  from Cons.prems obtain ok ns' where
    ok: "isValidPosition (pos_x p + dx) (pos_y p + dy) (pos_floor p) m = Inr ok"
    and ns': "sameFloorNeighbors p m ds = Inr ns'"
    and ns: "ns = (if ok then \<lparr>pos_x = pos_x p + dx, pos_y = pos_y p + dy, pos_floor = pos_floor p\<rparr> # ns' else ns')"
    by (auto simp: d split: sum.splits)
  from ok have "ok \<Longrightarrow> isValidMapPosition (pos_x p + dx) (pos_y p + dy) (pos_floor p) m"
    by (auto simp: isValidPosition_def split: if_splits)
  with Cons.IH [OF ns'] ns show ?case
    by (auto dest: valid_in_cells)
qed

lemma readCell_Inr_xy:
  assumes "readCell m x y f = Inr c"
  shows "0 \<le> x \<and> x < int (length m) \<and> 0 \<le> y \<and> y < int (sum_list (map length m))"
proof -
  from assms obtain col where col: "at_index m x = Some col" and "at_index col y \<noteq> None"
    by (auto simp: readCell_def split: option.splits)
  then have x: "0 \<le> x" "x < int (length m)" and y: "0 \<le> y" "y < int (length (m ! nat x))"
    by (auto simp: at_index_def split: if_splits)
  from x have "length (m ! nat x) \<le> sum_list (map length m)"
    by (intro column_le_sum) auto
  with x y show ?thesis by auto
qed

lemma stairNeighbors_cells:
  assumes "stairNeighbors p m = Inr ss"
  shows "set ss \<subseteq> cells m"
proof -
  from assms obtain c where c: "readCell m (pos_x p) (pos_y p) (pos_floor p) = Inr c"
    by (auto simp: stairNeighbors_def split: sum.splits)
  from readCell_Inr_xy [OF c] assms c show ?thesis
    by (auto simp: stairNeighbors_def stairTarget_def cells_def split: if_splits)
qed

lemma getNeighbors_cells: "getNeighbors p m = Inr ns \<Longrightarrow> set ns \<subseteq> cells m"
  using sameFloorNeighbors_cells [of p m directions] stairNeighbors_cells [of p m]
  by (auto simp: getNeighbors_def split: sum.splits)

section \<open>JavaScript numbers\<close>

text \<open>
  A JavaScript number is an IEEE 754 double: a multiple \<open>k * 2 ^ e\<close> of a power of two with
  \<open>\<bar>k\<bar> < 2 ^ 53\<close> and \<open>- 1074 \<le> e\<close>. An arithmetic operation returns the exact result
  rounded to the nearest double, and to the one with the even \<open>k\<close> when two are equally
  near; a decimal literal such as \<^verbatim>\<open>1.414\<close> stands for the double nearest to it.
  \<open>quantum x\<close> is the distance between the doubles around \<open>x\<close>, and \<open>toDouble\<close> the rounding.
  A result of magnitude \<open>2 ^ 1024\<close> or more, which JavaScript turns into \<^verbatim>\<open>Infinity\<close>, is
  left finite here: the costs and heuristics of the searches stay far below that on
  positions with coordinates below \<open>10 ^ 150\<close>, as those of every grid are.
\<close>

type_synonym number = real

definition roundHalfEven :: "real \<Rightarrow> int" where
  "roundHalfEven y =
     (let n = \<lfloor>y\<rfloor>; d = y - of_int n
      in if d < 1 / 2 then n else if 1 / 2 < d then n + 1 else if even n then n else n + 1)"

definition quantum :: "real \<Rightarrow> real" where
  "quantum x = 2 powr of_int (max \<lfloor>log 2 \<bar>x\<bar>\<rfloor> (- 1022) - 52)"

definition toDouble :: "real \<Rightarrow> number" where
  "toDouble x = (if x = 0 then 0 else of_int (roundHalfEven (x / quantum x)) * quantum x)"

text \<open>\<^verbatim>\<open>a + b\<close>, \<^verbatim>\<open>a - b\<close>, \<^verbatim>\<open>a * b\<close> and \<^verbatim>\<open>Math.sqrt(a)\<close> on numbers.\<close>

definition addNumber :: "number \<Rightarrow> number \<Rightarrow> number" where
  "addNumber a b = toDouble (a + b)"

definition subNumber :: "number \<Rightarrow> number \<Rightarrow> number" where
  "subNumber a b = toDouble (a - b)"

definition mulNumber :: "number \<Rightarrow> number \<Rightarrow> number" where
  "mulNumber a b = toDouble (a * b)"

definition sqrtNumber :: "number \<Rightarrow> number" where
  "sqrtNumber a = toDouble (sqrt a)"

lemma roundHalfEven_of_int [simp]: "roundHalfEven (of_int n) = n"
  by (simp add: roundHalfEven_def)

lemma roundHalfEven_near:
  assumes "\<bar>y - of_int k\<bar> < 1 / 2"
  shows "roundHalfEven y = k"
proof (cases "of_int k \<le> y")
  case True
  with assms have "\<lfloor>y\<rfloor> = k" by (intro floor_unique) auto
  with assms True show ?thesis by (simp add: roundHalfEven_def)
next
  case False
  with assms have fl: "\<lfloor>y\<rfloor> = k - 1" by (intro floor_unique) auto
  with assms False have "1 / 2 < y - of_int \<lfloor>y\<rfloor>" by simp
  with fl show ?thesis by (simp add: roundHalfEven_def Let_def)
qed


lemma quantum_binade:
  assumes "2 powr of_int j \<le> \<bar>x\<bar>" "\<bar>x\<bar> < 2 powr of_int (j + 1)" "- 1022 \<le> j"
  shows "quantum x = 2 powr of_int (j - 52)"
proof -
  from assms(1) have pos: "0 < \<bar>x\<bar>"
    by (smt (verit) powr_gt_zero)
  have "\<lfloor>log 2 \<bar>x\<bar>\<rfloor> = j"
    using assms(1,2) floor_log_eq_powr_iff [OF pos, of 2 j] by simp
  with assms(3) show ?thesis by (simp add: quantum_def max_def)
qed

lemma toDouble_binade:
  assumes "2 powr of_int j \<le> \<bar>x\<bar>" "\<bar>x\<bar> < 2 powr of_int (j + 1)" "- 1022 \<le> j"
  shows "toDouble x = of_int (roundHalfEven (x / 2 powr of_int (j - 52))) * 2 powr of_int (j - 52)"
proof -
  from assms(1) have "x \<noteq> 0" by (smt (verit) powr_gt_zero)
  with quantum_binade [OF assms] show ?thesis by (simp add: toDouble_def)
qed

lemma toDouble_0 [simp]: "toDouble 0 = 0"
  by (simp add: toDouble_def)


lemma toDouble_of_int:
  assumes "\<bar>k\<bar> < 2 ^ 53"
  shows "toDouble (of_int k) = of_int k"
proof (cases "k = 0")
  case True
  then show ?thesis by simp
next
  case False
  define j where "j = \<lfloor>log 2 \<bar>real_of_int k\<bar>\<rfloor>"
  have pos: "0 < \<bar>real_of_int k\<bar>" using False by simp
  have one: "1 \<le> \<bar>real_of_int k\<bar>" using False by (simp add: of_int_abs [symmetric] del: of_int_abs)
  have lo: "2 powr of_int j \<le> \<bar>real_of_int k\<bar>" and hi: "\<bar>real_of_int k\<bar> < 2 powr of_int (j + 1)"
    using floor_log_eq_powr_iff [OF pos, of 2 j] by (simp_all add: j_def)
  have j0: "0 \<le> j" unfolding j_def using one by simp
  have "\<bar>real_of_int k\<bar> < 2 ^ 53"
    using assms by (metis of_int_abs of_int_less_numeral_power_cancel_iff)
  with lo have "2 powr of_int j < (2::real) ^ 53" by linarith
  also have "(2::real) ^ 53 = 2 powr of_int 53" by simp
  finally have "real_of_int j < of_int 53"
    by (simp only: powr_less_cancel_iff one_less_numeral_iff semiring_norm)
  then have j52: "j \<le> 52" by simp
  define n where "n = nat (52 - j)"
  have e: "of_int (j - 52) = - real n" using j52 by (simp add: n_def)
  define q where "q = (2::real) powr of_int (j - 52)"
  have q: "q = 1 / 2 ^ n"
    unfolding q_def e by (simp add: powr_minus powr_realpow field_simps)
  have "real_of_int k / q = of_int (k * 2 ^ n)"
    by (simp add: q)
  then have "roundHalfEven (real_of_int k / q) = k * 2 ^ n"
    by (simp only: roundHalfEven_of_int)
  moreover from toDouble_binade [OF lo hi] j0
  have "toDouble (of_int k) = of_int (roundHalfEven (real_of_int k / q)) * q"
    unfolding q_def by simp
  ultimately show ?thesis by (simp add: q)
qed



lemma toDouble_1 [simp]: "toDouble 1 = 1"
  using toDouble_of_int [of 1] by simp

lemma toDouble_neg_1 [simp]: "toDouble (- 1) = - 1"
  using toDouble_of_int [of "- 1"] by simp






text \<open>The double nearest to a square root, from its integer significand.\<close>

lemma toDouble_sqrt:
  fixes k :: int and s :: nat
  assumes lo: "(2 * of_int k - 1)\<^sup>2 < 4 * x * 4 ^ s" and hi: "4 * x * 4 ^ s < (2 * of_int k + 1)\<^sup>2"
    and k: "2 ^ 52 < k" "k < 2 ^ 53" and s: "s \<le> 1074"
  shows "toDouble (sqrt x) = of_int k / 2 ^ s"
proof -
  define y where "y = sqrt x * 2 ^ s"
  have "0 < k" using k(1) by (rule less_trans [rotated]) simp
  then have kpos: "0 < real_of_int k" by simp
  have x0: "0 \<le> x"
  proof (rule ccontr)
    assume "\<not> 0 \<le> x"
    then have "4 * x * 4 ^ s < 0" by (simp add: mult_less_0_iff)
    with lo show False by (smt (verit) zero_le_power2)
  qed
  have "((2::real) ^ s)\<^sup>2 = (2\<^sup>2) ^ s"
    by (metis power_mult mult.commute)
  then have four: "((2::real) ^ s)\<^sup>2 = 4 ^ s" by simp
  have sq: "(2 * y)\<^sup>2 = 4 * x * 4 ^ s"
    using x0 by (simp add: y_def power_mult_distrib four)
  have y0: "0 \<le> y" using x0 by (simp add: y_def)
  have "(2 * of_int k - 1)\<^sup>2 < (2 * y)\<^sup>2" using lo by (simp only: sq)
  then have "2 * of_int k - 1 < 2 * y"
    by (rule power2_less_imp_less) (use y0 in simp)
  moreover have "(2 * y)\<^sup>2 < (2 * of_int k + 1)\<^sup>2" using hi by (simp only: sq)
  then have "2 * y < 2 * of_int k + 1"
    by (rule power2_less_imp_less) (use kpos in simp)
  ultimately have near: "\<bar>y - of_int k\<bar> < 1 / 2" by linarith
  have "(2::int) ^ 52 + 1 \<le> k" "k \<le> 2 ^ 53 - 1" using k by simp_all
  then have "real_of_int (2 ^ 52 + 1) \<le> of_int k" "real_of_int k \<le> of_int (2 ^ 53 - 1)"
    by (simp_all only: of_int_le_iff)
  then have k1: "(2::real) ^ 52 + 1 \<le> of_int k" and k2: "real_of_int k \<le> 2 ^ 53 - 1"
    by simp_all
  from near k1 k2 have yb: "2 ^ 52 \<le> y" "y < 2 ^ 53" by linarith+
  define j where "j = 52 - int s"
  define q where "q = (2::real) powr of_int (j - 52)"
  have p: "q = 1 / 2 ^ s" and p0: "2 powr of_int j = 2 ^ 52 / (2::real) ^ s"
    and p1: "2 powr of_int (j + 1) = 2 ^ 53 / (2::real) ^ s"
    by (simp_all add: q_def j_def powr_minus powr_diff powr_add powr_realpow field_simps)
  have "2 powr of_int j \<le> \<bar>sqrt x\<bar>" "\<bar>sqrt x\<bar> < 2 powr of_int (j + 1)"
    using yb x0 unfolding p0 p1 y_def by (simp_all add: field_simps)
  moreover have "- 1022 \<le> j" using s by (simp add: j_def)
  ultimately have "toDouble (sqrt x) = of_int (roundHalfEven (sqrt x / q)) * q"
    unfolding q_def by (rule toDouble_binade)
  also have "sqrt x / q = y" by (simp add: p y_def)
  also have "roundHalfEven y = k" using near by (rule roundHalfEven_near)
  finally show ?thesis by (simp add: p)
qed


section \<open>A* search (findPathAStar)\<close>

text \<open>
  \<^verbatim>\<open>interface PathNode { position; parent?; gCost; hCost; fCost }\<close>. A node is only ever
  the parent of another after it has left the open set, and nodes are changed in place only
  while they are in the open set, so a parent held by value is the parent held by reference.
  Costs are JavaScript numbers.
\<close>

datatype PathNode =
  PathNode (node_position: Position) (node_parent: "PathNode option")
    (gCost: number) (hCost: number) (fCost: number)

definition calculateHeuristic :: "Position \<Rightarrow> Position \<Rightarrow> number" where
  "calculateHeuristic pos1 pos2 =
     (let dx = subNumber (of_int (pos_x pos2)) (of_int (pos_x pos1));
          dy = subNumber (of_int (pos_y pos2)) (of_int (pos_y pos1));
          dz = mulNumber (subNumber (of_int (pos_floor pos2)) (of_int (pos_floor pos1))) 10
      in sqrtNumber (addNumber (addNumber (mulNumber dx dx) (mulNumber dy dy)) (mulNumber dz dz)))"

text \<open>\<^verbatim>\<open>getMovementCost\<close>; \<^verbatim>\<open>1.414\<close> is the double nearest to 707/500.\<close>

definition getMovementCost :: "Position \<Rightarrow> Position \<Rightarrow> number" where
  "getMovementCost pos1 pos2 =
     (let dx = \<bar>subNumber (of_int (pos_x pos2)) (of_int (pos_x pos1))\<bar>;
          dy = \<bar>subNumber (of_int (pos_y pos2)) (of_int (pos_y pos1))\<bar>;
          dz = \<bar>subNumber (of_int (pos_floor pos2)) (of_int (pos_floor pos1))\<bar>;
          cost = (if addNumber dx dy = 2 then toDouble (707 / 500) else 1)
      in if dz > 0 then addNumber cost 5 else cost)"

text \<open>\<^verbatim>\<open>reconstructPath\<close>: walk the parents, putting each position in front.\<close>

fun reconstructPath :: "PathNode \<Rightarrow> Position list" where
  "reconstructPath (PathNode pos None g h f) = [pos]"
| "reconstructPath (PathNode pos (Some parent) g h f) = reconstructPath parent @ [pos]"

text \<open>The in-place update of the node \<^verbatim>\<open>openSet.find\<close> returned: the first at that position.\<close>

fun updateExisting :: "Position \<Rightarrow> PathNode \<Rightarrow> number \<Rightarrow> number \<Rightarrow> PathNode list \<Rightarrow> PathNode list" where
  "updateExisting pos currentNode g f [] = []"
| "updateExisting pos currentNode g f (node # nodes) =
     (if node_position node = pos
      then PathNode (node_position node) (Some currentNode) g (hCost node) f # nodes
      else node # updateExisting pos currentNode g f nodes)"

text \<open>The loop over the neighbours of the current node in \<^verbatim>\<open>findPathAStar\<close>.\<close>

fun relaxNeighbors ::
  "PathNode \<Rightarrow> Position \<Rightarrow> Position set \<Rightarrow> Position list \<Rightarrow> PathNode list \<Rightarrow> PathNode list" where
  "relaxNeighbors currentNode goal closedSet [] openSet = openSet"
| "relaxNeighbors currentNode goal closedSet (neighborPos # rest) openSet =
     (if neighborPos \<in> closedSet then relaxNeighbors currentNode goal closedSet rest openSet
      else
        (let g = addNumber (gCost currentNode) (getMovementCost (node_position currentNode) neighborPos);
             h = calculateHeuristic neighborPos goal;
             f = addNumber g h
         in case find (\<lambda>node. node_position node = neighborPos) openSet of
              None \<Rightarrow>
                relaxNeighbors currentNode goal closedSet rest
                  (openSet @ [PathNode neighborPos (Some currentNode) g h f])
            | Some existingNode \<Rightarrow>
                (if g < gCost existingNode
                 then relaxNeighbors currentNode goal closedSet rest
                        (updateExisting neighborPos currentNode g f openSet)
                 else relaxNeighbors currentNode goal closedSet rest openSet)))"

lemma positions_updateExisting:
  "map node_position (updateExisting pos c g f nodes) = map node_position nodes"
  by (induction nodes) auto

definition undiscovered :: "grid \<Rightarrow> Position set \<Rightarrow> PathNode list \<Rightarrow> Position set" where
  "undiscovered m closedSet openSet = cells m - closedSet - node_position ` set openSet"

lemma finite_undiscovered: "finite (undiscovered m closedSet openSet)"
  by (simp add: undiscovered_def finite_cells)

lemma undiscovered_update:
  "undiscovered m closedSet (updateExisting pos c g f openSet) = undiscovered m closedSet openSet"
proof -
  have "node_position ` set (updateExisting pos c g f openSet) = node_position ` set openSet"
    using positions_updateExisting [of pos c g f openSet]
    by (metis list.set_map)
  then show ?thesis by (simp add: undiscovered_def)
qed

lemma length_updateExisting: "length (updateExisting pos c g f nodes) = length nodes"
  by (induction nodes) auto

lemma push_measure:
  assumes "n \<in> cells m" "n \<notin> closedSet" "find (\<lambda>node. node_position node = n) openSet = None"
  shows "length (openSet @ [PathNode n par g h f]) +
           card (undiscovered m closedSet (openSet @ [PathNode n par g h f])) =
         length openSet + card (undiscovered m closedSet openSet)"
proof -
  from assms(3) have "n \<notin> node_position ` set openSet"
    by (auto simp: find_None_iff)
  with assms(1,2) have mem: "n \<in> undiscovered m closedSet openSet"
    by (simp add: undiscovered_def)
  have "undiscovered m closedSet (openSet @ [PathNode n par g h f]) =
        undiscovered m closedSet openSet - {n}"
    by (auto simp: undiscovered_def)
  moreover have "card (undiscovered m closedSet openSet - {n}) =
        card (undiscovered m closedSet openSet) - 1"
    using mem by (simp add: finite_undiscovered)
  moreover have "card (undiscovered m closedSet openSet) \<ge> 1"
    using mem finite_undiscovered [of m closedSet openSet]
    by (metis One_nat_def Suc_leI card_gt_0_iff empty_iff)
  ultimately show ?thesis by simp
qed

lemma relax_measure:
  assumes "set ns \<subseteq> cells m"
  shows "length (relaxNeighbors c goal closedSet ns openSet) +
           card (undiscovered m closedSet (relaxNeighbors c goal closedSet ns openSet)) =
         length openSet + card (undiscovered m closedSet openSet)"
  using assms
proof (induction ns arbitrary: openSet)
  case Nil
  then show ?case by simp
next
  case (Cons n ns)
  then have n: "n \<in> cells m" and ns: "set ns \<subseteq> cells m" by auto
  show ?case
  proof (cases "n \<in> closedSet")
    case True
    with Cons.IH [OF ns] show ?thesis by simp
  next
    case False
    show ?thesis
    proof (cases "find (\<lambda>node. node_position node = n) openSet")
      case None
      with False Cons.IH [OF ns] push_measure [OF n False None] show ?thesis
        by (simp add: Let_def)
    next
      case (Some ex)
      with False Cons.IH [OF ns] show ?thesis
        by (simp add: Let_def undiscovered_update length_updateExisting)
    qed
  qed
qed

function astarLoop :: "Position \<Rightarrow> grid \<Rightarrow> PathNode list \<Rightarrow> Position set \<Rightarrow> error + Position list option" where
  "astarLoop goal m openSet closedSet =
     (case sort_key fCost openSet of
        [] \<Rightarrow> Inr None
      | currentNode # rest \<Rightarrow>
          (if node_position currentNode = goal then Inr (Some (reconstructPath currentNode))
           else (case getNeighbors (node_position currentNode) m of
                   Inl e \<Rightarrow> Inl e
                 | Inr neighbors \<Rightarrow>
                     astarLoop goal m
                       (relaxNeighbors currentNode goal
                          (insert (node_position currentNode) closedSet) neighbors rest)
                       (insert (node_position currentNode) closedSet))))"
  by pat_completeness auto

lemma astar_step_decreases:
  assumes sorted: "sort_key fCost openSet = currentNode # rest"
    and nb: "getNeighbors (node_position currentNode) m = Inr ns"
  shows "length (relaxNeighbors currentNode goal (insert (node_position currentNode) closedSet) ns rest) +
           card (undiscovered m (insert (node_position currentNode) closedSet)
                  (relaxNeighbors currentNode goal (insert (node_position currentNode) closedSet) ns rest))
         < length openSet + card (undiscovered m closedSet openSet)"
proof -
  let ?c = "insert (node_position currentNode) closedSet"
  have "set (sort_key fCost openSet) = set openSet" by simp
  with sorted have st: "set openSet = insert currentNode (set rest)" by simp
  have "length (sort_key fCost openSet) = length openSet" by simp
  with sorted have len: "length openSet = Suc (length rest)" by simp
  have "undiscovered m ?c rest \<subseteq> undiscovered m closedSet openSet"
    by (auto simp: undiscovered_def st)
  then have "card (undiscovered m ?c rest) \<le> card (undiscovered m closedSet openSet)"
    by (rule card_mono [OF finite_undiscovered])
  moreover from relax_measure [OF getNeighbors_cells [OF nb]]
  have "length (relaxNeighbors currentNode goal ?c ns rest) +
           card (undiscovered m ?c (relaxNeighbors currentNode goal ?c ns rest)) =
        length rest + card (undiscovered m ?c rest)" .
  ultimately show ?thesis using len by simp
qed

termination astarLoop
  by (relation "measure (\<lambda>(goal, m, openSet, closedSet).
        length openSet + card (undiscovered m closedSet openSet))")
     (auto simp: astar_step_decreases)

definition findPathAStar :: "Position \<Rightarrow> Position \<Rightarrow> grid \<Rightarrow> error + Position list option" where
  "findPathAStar start goal m =
     astarLoop goal m
       [PathNode start None 0 (calculateHeuristic start goal)
          (addNumber 0 (calculateHeuristic start goal))] {}"

section \<open>Breadth-first search (findPathBFS)\<close>

lemma sameFloorNeighbors_floor:
  "sameFloorNeighbors p m ds = Inr ns \<Longrightarrow> ns \<noteq> [] \<Longrightarrow>
   0 \<le> pos_floor p \<and> pos_floor p < int (length (m ! 0 ! 0))"
proof (induction ds arbitrary: ns)
  case Nil
  then show ?case by simp
next
  case (Cons d ds)
  obtain dx dy where d: "d = (dx, dy)" by (cases d)
  from Cons.prems(1) obtain ok ns' where
    ok: "isValidPosition (pos_x p + dx) (pos_y p + dy) (pos_floor p) m = Inr ok"
    and ns': "sameFloorNeighbors p m ds = Inr ns'"
    and ns: "ns = (if ok then \<lparr>pos_x = pos_x p + dx, pos_y = pos_y p + dy, pos_floor = pos_floor p\<rparr> # ns' else ns')"
    by (auto simp: d split: sum.splits)
  show ?case
  proof (cases ok)
    case True
    with ok have "isValidMapPosition (pos_x p + dx) (pos_y p + dy) (pos_floor p) m"
      by (auto simp: isValidPosition_def split: if_splits)
    then show ?thesis by (simp add: isValidMapPosition_def)
  next
    case False
    with ns Cons.prems(2) have "ns' \<noteq> []" by simp
    with Cons.IH [OF ns'] show ?thesis .
  qed
qed

lemma stairNeighbors_floor:
  assumes "stairNeighbors p m = Inr ss" "ss \<noteq> []"
  shows "0 \<le> pos_floor p \<and> pos_floor p \<le> int (length (m ! 0 ! 0))"
proof -
  from assms obtain c where c: "readCell m (pos_x p) (pos_y p) (pos_floor p) = Inr c"
    by (auto simp: stairNeighbors_def split: sum.splits)
  with assms have st: "c = Some STAIRS"
    by (auto simp: stairNeighbors_def split: if_splits)
  with c have "0 \<le> pos_floor p"
    by (auto simp: readCell_def at_index_def split: option.splits if_splits)
  moreover from assms c st obtain nf where "nf \<in> {pos_floor p - 1, pos_floor p + 1}" "stairTarget p m nf"
    by (auto simp: stairNeighbors_def split: if_splits)
  then have "pos_floor p \<le> int (length (m ! 0 ! 0))"
    by (auto simp: stairTarget_def)
  ultimately show ?thesis by simp
qed

lemma getNeighbors_source_in_cells:
  assumes "getNeighbors p m = Inr ns" "ns \<noteq> []"
  shows "p \<in> cells m"
proof -
  from assms(1) obtain sf ss where sf: "sameFloorNeighbors p m directions = Inr sf"
    and ss: "stairNeighbors p m = Inr ss" and ns: "ns = sf @ ss"
    by (auto simp: getNeighbors_def split: sum.splits)
  from ss obtain c where c: "readCell m (pos_x p) (pos_y p) (pos_floor p) = Inr c"
    by (auto simp: stairNeighbors_def split: sum.splits)
  note xy = readCell_Inr_xy [OF c]
  from ns assms(2) have "sf \<noteq> [] \<or> ss \<noteq> []" by simp
  then have "0 \<le> pos_floor p \<and> pos_floor p \<le> int (length (m ! 0 ! 0))"
    using sameFloorNeighbors_floor [OF sf] stairNeighbors_floor [OF ss] by auto
  with xy show ?thesis by (simp add: cells_def)
qed

text \<open>
  \<^verbatim>\<open>findPathBFS\<close>: a FIFO queue of positions with the path to each; a position is
  marked visited when it is taken from the queue.
\<close>

function bfsLoop ::
  "Position \<Rightarrow> grid \<Rightarrow> (Position \<times> Position list) list \<Rightarrow> Position set \<Rightarrow> error + Position list option" where
  "bfsLoop goal m [] visited = Inr None"
| "bfsLoop goal m ((pos, path) # queue) visited =
     (if pos = goal then Inr (Some path)
      else if pos \<in> visited then bfsLoop goal m queue visited
      else (case getNeighbors pos m of
              Inl e \<Rightarrow> Inl e
            | Inr neighbors \<Rightarrow>
                bfsLoop goal m
                  (queue @ map (\<lambda>neighbor. (neighbor, path @ [neighbor]))
                             (filter (\<lambda>neighbor. neighbor \<notin> insert pos visited) neighbors))
                  (insert pos visited)))"
  by pat_completeness auto

lemma bfs_expand_decreases:
  assumes "pos \<notin> visited" "getNeighbors pos m = Inr ns"
  shows "card (cells m - insert pos visited) < card (cells m - visited) \<or>
         card (cells m - insert pos visited) = card (cells m - visited) \<and> ns = []"
proof (cases "ns = []")
  case True
  have "card (cells m - insert pos visited) \<le> card (cells m - visited)"
    by (rule card_mono) (auto simp: finite_cells)
  with True show ?thesis by auto
next
  case False
  with assms(2) have "pos \<in> cells m" by (rule getNeighbors_source_in_cells)
  with assms(1) have "cells m - insert pos visited \<subset> cells m - visited" by auto
  then have "card (cells m - insert pos visited) < card (cells m - visited)"
    by (rule psubset_card_mono [rotated]) (simp add: finite_cells)
  then show ?thesis by simp
qed

termination bfsLoop
proof (relation "inv_image (less_than <*lex*> less_than)
         (\<lambda>(goal, m, queue, visited). (card (cells m - visited), length queue))", goal_cases)
  case 1
  show ?case by (intro wf_inv_image wf_lex_prod wf_less_than)
next
  case 2
  then show ?case by simp
next
  case (3 goal m pos path queue visited ns)
  with bfs_expand_decreases [of pos visited m ns] show ?case by auto
qed

definition findPathBFS :: "Position \<Rightarrow> Position \<Rightarrow> grid \<Rightarrow> error + Position list option" where
  "findPathBFS start goal m = bfsLoop goal m [(start, [start])] {}"

section \<open>Bidirectional search (findPathBidirectional)\<close>

text \<open>
  \<^verbatim>\<open>findPathBidirectional\<close>: two FIFO frontiers, one from the start and one from the
  goal; \<^verbatim>\<open>visitedStart\<close> and \<^verbatim>\<open>visitedGoal\<close> map each position reached to the path that
  reached it. The loop over the neighbours of the start-side node returns from inside the
  loop (\<open>Inl\<close>) when a neighbour new to the start side is known to the goal side.
\<close>

fun expandStart ::
  "Position list \<Rightarrow> (Position \<rightharpoonup> Position list) \<Rightarrow> Position list \<Rightarrow>
   (Position \<times> Position list) list \<Rightarrow> (Position \<rightharpoonup> Position list) \<Rightarrow>
   Position list + (Position \<times> Position list) list \<times> (Position \<rightharpoonup> Position list)" where
  "expandStart pathS visitedGoal [] queueStart visitedStart = Inr (queueStart, visitedStart)"
| "expandStart pathS visitedGoal (neighbor # rest) queueStart visitedStart =
     (if visitedStart neighbor = None
      then (case visitedGoal neighbor of
              Some pathG \<Rightarrow> Inl (pathS @ rev (butlast pathG))
            | None \<Rightarrow>
                expandStart pathS visitedGoal rest
                  (queueStart @ [(neighbor, pathS @ [neighbor])])
                  (visitedStart(neighbor \<mapsto> pathS @ [neighbor])))
      else expandStart pathS visitedGoal rest queueStart visitedStart)"

text \<open>
  The goal-side loop: on a neighbour new to the goal side and known to the start side it
  returns the start side's path to the neighbour followed by the reversed goal-side path
  of the node being expanded, without its last element.
\<close>

fun expandGoal ::
  "Position list \<Rightarrow> (Position \<rightharpoonup> Position list) \<Rightarrow> Position list \<Rightarrow>
   (Position \<times> Position list) list \<Rightarrow> (Position \<rightharpoonup> Position list) \<Rightarrow>
   Position list + (Position \<times> Position list) list \<times> (Position \<rightharpoonup> Position list)" where
  "expandGoal pathG visitedStart [] queueGoal visitedGoal = Inr (queueGoal, visitedGoal)"
| "expandGoal pathG visitedStart (neighbor # rest) queueGoal visitedGoal =
     (if visitedGoal neighbor = None
      then (case visitedStart neighbor of
              Some pathS \<Rightarrow> Inl (pathS @ rev (butlast pathG))
            | None \<Rightarrow>
                expandGoal pathG visitedStart rest
                  (queueGoal @ [(neighbor, pathG @ [neighbor])])
                  (visitedGoal(neighbor \<mapsto> pathG @ [neighbor])))
      else expandGoal pathG visitedStart rest queueGoal visitedGoal)"

lemma card_unseen_upd:
  assumes "n \<in> cells m" "v n = None"
  shows "Suc (card (cells m - dom (v(n \<mapsto> x)))) = card (cells m - dom v)"
proof -
  have fin: "finite (cells m - dom v)" by (simp add: finite_cells)
  from assms have mem: "n \<in> cells m - dom v" by auto
  have "cells m - dom (v(n \<mapsto> x)) = (cells m - dom v) - {n}" by auto
  then have "Suc (card (cells m - dom (v(n \<mapsto> x)))) = Suc (card ((cells m - dom v) - {n}))"
    by (simp only:)
  also have "\<dots> = card (cells m - dom v)"
    using fin mem by (rule card.remove [symmetric])
  finally show ?thesis .
qed

lemma expandStart_measure:
  "expandStart pathS visitedGoal ns q v = Inr (q', v') \<Longrightarrow> set ns \<subseteq> cells m \<Longrightarrow>
   length q' + card (cells m - dom v') = length q + card (cells m - dom v)"
proof (induction ns arbitrary: q v)
  case Nil
  then show ?case by simp
next
  case (Cons n ns)
  from Cons.prems(2) have n: "n \<in> cells m" and ns: "set ns \<subseteq> cells m" by auto
  show ?case
  proof (cases "v n = None")
    case False
    with Cons.prems(1) have "expandStart pathS visitedGoal ns q v = Inr (q', v')" by simp
    from Cons.IH [OF this ns] show ?thesis .
  next
    case True
    with Cons.prems(1) have none: "visitedGoal n = None"
      by (auto split: option.splits)
    with True Cons.prems(1) have
      "expandStart pathS visitedGoal ns (q @ [(n, pathS @ [n])]) (v(n \<mapsto> pathS @ [n])) = Inr (q', v')"
      by simp
    from Cons.IH [OF this ns] have
      "length q' + card (cells m - dom v') =
       length (q @ [(n, pathS @ [n])]) + card (cells m - dom (v(n \<mapsto> pathS @ [n])))" .
    also have "\<dots> = length q + Suc (card (cells m - dom (v(n \<mapsto> pathS @ [n]))))"
      by (simp del: dom_fun_upd fun_upd_apply)
    also have "\<dots> = length q + card (cells m - dom v)"
      by (simp only: card_unseen_upd [of n m v, OF n True])
    finally show ?thesis .
  qed
qed

lemma expandGoal_measure:
  "expandGoal pathG visitedStart ns q v = Inr (q', v') \<Longrightarrow> set ns \<subseteq> cells m \<Longrightarrow>
   length q' + card (cells m - dom v') = length q + card (cells m - dom v)"
proof (induction ns arbitrary: q v)
  case Nil
  then show ?case by simp
next
  case (Cons n ns)
  from Cons.prems(2) have n: "n \<in> cells m" and ns: "set ns \<subseteq> cells m" by auto
  show ?case
  proof (cases "v n = None")
    case False
    with Cons.prems(1) have "expandGoal pathG visitedStart ns q v = Inr (q', v')" by simp
    from Cons.IH [OF this ns] show ?thesis .
  next
    case True
    with Cons.prems(1) have none: "visitedStart n = None"
      by (auto split: option.splits)
    with True Cons.prems(1) have
      "expandGoal pathG visitedStart ns (q @ [(n, pathG @ [n])]) (v(n \<mapsto> pathG @ [n])) = Inr (q', v')"
      by simp
    from Cons.IH [OF this ns] have
      "length q' + card (cells m - dom v') =
       length (q @ [(n, pathG @ [n])]) + card (cells m - dom (v(n \<mapsto> pathG @ [n])))" .
    also have "\<dots> = length q + Suc (card (cells m - dom (v(n \<mapsto> pathG @ [n]))))"
      by (simp del: dom_fun_upd fun_upd_apply)
    also have "\<dots> = length q + card (cells m - dom v)"
      by (simp only: card_unseen_upd [of n m v, OF n True])
    finally show ?thesis .
  qed
qed

function bidirectionalLoop ::
  "grid \<Rightarrow> (Position \<times> Position list) list \<Rightarrow> (Position \<times> Position list) list \<Rightarrow>
   (Position \<rightharpoonup> Position list) \<Rightarrow> (Position \<rightharpoonup> Position list) \<Rightarrow> error + Position list option" where
  "bidirectionalLoop m queueStart queueGoal visitedStart visitedGoal =
     (case queueStart of
        [] \<Rightarrow> Inr None
      | (posS, pathS) # restS \<Rightarrow>
          (case queueGoal of
             [] \<Rightarrow> Inr None
           | (posG, pathG) # restG \<Rightarrow>
               (case getNeighbors posS m of
                  Inl e \<Rightarrow> Inl e
                | Inr neighborsS \<Rightarrow>
                    (case expandStart pathS visitedGoal neighborsS restS visitedStart of
                       Inl found \<Rightarrow> Inr (Some found)
                     | Inr (queueStart', visitedStart') \<Rightarrow>
                         (case getNeighbors posG m of
                            Inl e \<Rightarrow> Inl e
                          | Inr neighborsG \<Rightarrow>
                              (case expandGoal pathG visitedStart' neighborsG restG visitedGoal of
                                 Inl found \<Rightarrow> Inr (Some found)
                               | Inr (queueGoal', visitedGoal') \<Rightarrow>
                                   bidirectionalLoop m queueStart' queueGoal'
                                     visitedStart' visitedGoal'))))))"
  by pat_completeness auto

termination bidirectionalLoop
proof (relation "measure (\<lambda>(m, queueStart, queueGoal, visitedStart, visitedGoal).
          length queueStart + card (cells m - dom visitedStart) +
          length queueGoal + card (cells m - dom visitedGoal))", goal_cases)
  case 1
  show ?case by simp
next
  case (2 m queueStart queueGoal visitedStart visitedGoal hS restS posS pathS hG restG posG pathG
      neighborsS rS queueStart' visitedStart' neighborsG rG queueGoal' visitedGoal')
  from 2 have "expandStart pathS visitedGoal neighborsS restS visitedStart = Inr (queueStart', visitedStart')"
    by simp
  from expandStart_measure [OF this getNeighbors_cells] 2
  have s: "length queueStart' + card (cells m - dom visitedStart') =
           length restS + card (cells m - dom visitedStart)"
    by simp
  from 2 have "expandGoal pathG visitedStart' neighborsG restG visitedGoal = Inr (queueGoal', visitedGoal')"
    by simp
  from expandGoal_measure [OF this getNeighbors_cells] 2
  have g: "length queueGoal' + card (cells m - dom visitedGoal') =
           length restG + card (cells m - dom visitedGoal)"
    by simp
  from 2 s g show ?case by simp
qed

definition findPathBidirectional :: "Position \<Rightarrow> Position \<Rightarrow> grid \<Rightarrow> error + Position list option" where
  "findPathBidirectional start goal m =
     bidirectionalLoop m [(start, [start])] [(goal, [goal])]
       [start \<mapsto> [start]] [goal \<mapsto> [goal]]"

section \<open>Randomised searches (findPathRandomWalk, findPathACO, findPathGA, findPathSwarm)\<close>

text \<open>
  \<^verbatim>\<open>Math.random()\<close> is modelled by the stream of the numbers it will return: a function
  that calls it takes the stream and returns what is left of it.
  \<^verbatim>\<open>xs[Math.floor(Math.random() * xs.length)]\<close> is \<open>pick xs r\<close> for a draw \<open>r\<close>.
\<close>

definition pick :: "'a list \<Rightarrow> real \<Rightarrow> 'a option" where
  "pick xs r = at_index xs \<lfloor>mulNumber r (real (length xs))\<rfloor>"

text \<open>
  \<^verbatim>\<open>findPathRandomWalk\<close>; the first argument counts the iterations left of
  \<^verbatim>\<open>for (let i = 0; i < maxSteps; i++)\<close>. Were the picked neighbour \<^verbatim>\<open>undefined\<close>,
  \<^verbatim>\<open>positionToKey(current)\<close> would raise a \<^verbatim>\<open>TypeError\<close>.
\<close>

fun randomWalkLoop ::
  "nat \<Rightarrow> Position \<Rightarrow> grid \<Rightarrow> Position \<Rightarrow> Position list \<Rightarrow> Position set \<Rightarrow> real stream \<Rightarrow>
   (error + Position list option) \<times> real stream" where
  "randomWalkLoop 0 goal m current path visited rnd = (Inr None, rnd)"
| "randomWalkLoop (Suc n) goal m current path visited rnd =
     (if current = goal then (Inr (Some path), rnd)
      else (case getNeighbors current m of
              Inl e \<Rightarrow> (Inl e, rnd)
            | Inr ns \<Rightarrow>
                (let neighbors = filter (\<lambda>n. n \<notin> visited) ns
                 in if length neighbors = 0 then (Inr None, rnd)
                    else (case pick neighbors (shd rnd) of
                            None \<Rightarrow> (Inl TypeError, stl rnd)
                          | Some next \<Rightarrow>
                              randomWalkLoop n goal m next (path @ [next])
                                (insert next visited) (stl rnd)))))"

definition findPathRandomWalk ::
  "Position \<Rightarrow> Position \<Rightarrow> grid \<Rightarrow> nat \<Rightarrow> real stream \<Rightarrow> (error + Position list option) \<times> real stream" where
  "findPathRandomWalk start goal m maxSteps rnd =
     randomWalkLoop maxSteps goal m start [start] {start} rnd"




text \<open>
  \<^verbatim>\<open>findPathGA\<close>. A population holds paths and, after \<^verbatim>\<open>[population[0]]\<close> on an empty
  population, \<^verbatim>\<open>undefined\<close> (\<open>None\<close>). \<^verbatim>\<open>Array.prototype.sort\<close> is stable and puts
  \<^verbatim>\<open>undefined\<close> last without calling the comparison.
\<close>

fun gaInit ::
  "nat \<Rightarrow> Position \<Rightarrow> Position \<Rightarrow> grid \<Rightarrow> real stream \<Rightarrow> (error + Position list list) \<times> real stream" where
  "gaInit 0 start goal m rnd = (Inr [], rnd)"
| "gaInit (Suc i) start goal m rnd =
     (case findPathRandomWalk start goal m 100 rnd of
        (Inl e, rnd') \<Rightarrow> (Inl e, rnd')
      | (Inr path, rnd') \<Rightarrow>
          (case gaInit i start goal m rnd' of
             (Inl e, rnd'') \<Rightarrow> (Inl e, rnd'')
           | (Inr population, rnd'') \<Rightarrow>
               (Inr (case path of None \<Rightarrow> population | Some p \<Rightarrow> p # population), rnd'')))"

definition sortPopulation :: "Position list option list \<Rightarrow> Position list option list" where
  "sortPopulation population =
     map Some (sort_key length (concat (map (\<lambda>p. case p of None \<Rightarrow> [] | Some q \<Rightarrow> [q]) population)))
     @ filter (\<lambda>p. p = None) population"

text \<open>\<^verbatim>\<open>population[i]\<close>: \<^verbatim>\<open>undefined\<close> outside the array or where the element is.\<close>

definition memberAt :: "Position list option list \<Rightarrow> int \<Rightarrow> Position list option" where
  "memberAt population i = (case at_index population i of Some (Some p) \<Rightarrow> Some p | _ \<Rightarrow> None)"

text \<open>\<^verbatim>\<open>xs.slice(-k)\<close> for \<open>k \<ge> 0\<close>: the last \<open>k\<close> elements, and all of them for \<open>k = 0\<close>.\<close>

definition sliceFromEnd :: "nat \<Rightarrow> 'a list \<Rightarrow> 'a list" where
  "sliceFromEnd k xs = (if k = 0 then xs else drop (length xs - k) xs)"

text \<open>
  The loop \<^verbatim>\<open>while (newPop.length < populationSize)\<close>: crossover of two random parents
  and, with a draw below 0.3, a random walk of at most 20 steps from the child's last
  position. \<^verbatim>\<open>parent1.length\<close> and \<^verbatim>\<open>parent2.length\<close> raise a \<^verbatim>\<open>TypeError\<close> on
  \<^verbatim>\<open>undefined\<close>.
\<close>

function breed ::
  "nat \<Rightarrow> Position \<Rightarrow> grid \<Rightarrow> Position list option list \<Rightarrow> Position list option list \<Rightarrow> real stream \<Rightarrow>
   (error + Position list option list) \<times> real stream" where
  "breed populationSize goal m population newPop rnd =
     (if length newPop < populationSize
      then (let parent1 = memberAt population \<lfloor>mulNumber (shd rnd) (real (length population))\<rfloor>;
                parent2 = memberAt population \<lfloor>mulNumber (shd (stl rnd)) (real (length population))\<rfloor>;
                rnd2 = stl (stl rnd)
            in case parent1 of
                 None \<Rightarrow> (Inl TypeError, rnd2)
               | Some p1 \<Rightarrow>
                   (case parent2 of
                      None \<Rightarrow> (Inl TypeError, rnd2)
                    | Some p2 \<Rightarrow>
                        (let crossoverPoint = length p1 div 2;
                             child = take crossoverPoint p1
                                     @ (if length p2 > 0 then sliceFromEnd (length p2 div 2) p2 else [])
                         in if shd rnd2 < toDouble (3 / 10) \<and> length child > 0
                            then (case findPathRandomWalk (last child) goal m 20 (stl rnd2) of
                                    (Inl e, rnd3) \<Rightarrow> (Inl e, rnd3)
                                  | (Inr walk, rnd3) \<Rightarrow>
                                      breed populationSize goal m population
                                        (newPop @ [Some (case walk of None \<Rightarrow> child
                                                         | Some w \<Rightarrow> child @ drop 1 w)])
                                        rnd3)
                            else breed populationSize goal m population
                                   (newPop @ [Some child]) (stl rnd2))))
      else (Inr newPop, rnd))"
  by pat_completeness auto
termination
  by (relation "measure (\<lambda>(populationSize, goal, m, population, newPop, rnd).
        populationSize - length newPop)") auto

fun evolve ::
  "nat \<Rightarrow> nat \<Rightarrow> Position \<Rightarrow> grid \<Rightarrow> Position list option list \<Rightarrow> Position list option \<Rightarrow> enat \<Rightarrow>
   real stream \<Rightarrow> (error + Position list option) \<times> real stream" where
  "evolve 0 populationSize goal m population bestPath bestLength rnd = (Inr bestPath, rnd)"
| "evolve (Suc gen) populationSize goal m population bestPath bestLength rnd =
     (let sorted = sortPopulation population;
          first = memberAt sorted 0;
          (bestPath', bestLength') =
            (case first of
               None \<Rightarrow> (bestPath, bestLength)
             | Some p \<Rightarrow>
                 (if enat (length p) < bestLength then (Some p, enat (length p))
                  else (bestPath, bestLength)))
      in case breed populationSize goal m sorted [first] rnd of
           (Inl e, rnd') \<Rightarrow> (Inl e, rnd')
         | (Inr newPop, rnd') \<Rightarrow>
             evolve gen populationSize goal m newPop bestPath' bestLength' rnd')"

definition findPathGA ::
  "Position \<Rightarrow> Position \<Rightarrow> grid \<Rightarrow> nat \<Rightarrow> nat \<Rightarrow> real stream \<Rightarrow> (error + Position list option) \<times> real stream" where
  "findPathGA start goal m populationSize generations rnd =
     (case gaInit populationSize start goal m rnd of
        (Inl e, rnd') \<Rightarrow> (Inl e, rnd')
      | (Inr population, rnd') \<Rightarrow>
          evolve generations populationSize goal m (map Some population) None \<infinity> rnd')"

text \<open>
  \<^verbatim>\<open>findPathSwarm\<close>: each agent takes up to \<^verbatim>\<open>iterations\<close> random steps, stepping
  before it compares its position with the goal.
\<close>

fun swarmAgent ::
  "nat \<Rightarrow> Position \<Rightarrow> grid \<Rightarrow> Position \<Rightarrow> Position list \<Rightarrow> real stream \<Rightarrow>
   (error + Position \<times> Position list) \<times> real stream" where
  "swarmAgent 0 goal m agentPos path rnd = (Inr (agentPos, path), rnd)"
| "swarmAgent (Suc j) goal m agentPos path rnd =
     (case getNeighbors agentPos m of
        Inl e \<Rightarrow> (Inl e, rnd)
      | Inr neighbors \<Rightarrow>
          (if length neighbors = 0 then (Inr (agentPos, path), rnd)
           else (case pick neighbors (shd rnd) of
                   None \<Rightarrow> (Inl TypeError, stl rnd)
                 | Some next \<Rightarrow>
                     (if next = goal then (Inr (next, path @ [next]), stl rnd)
                      else swarmAgent j goal m next (path @ [next]) (stl rnd)))))"

fun swarmLoop ::
  "nat \<Rightarrow> nat \<Rightarrow> Position \<Rightarrow> Position \<Rightarrow> grid \<Rightarrow> Position list option \<Rightarrow> enat \<Rightarrow> real stream \<Rightarrow>
   (error + Position list option) \<times> real stream" where
  "swarmLoop 0 iterations start goal m bestPath bestLength rnd = (Inr bestPath, rnd)"
| "swarmLoop (Suc i) iterations start goal m bestPath bestLength rnd =
     (case swarmAgent iterations goal m start [start] rnd of
        (Inl e, rnd') \<Rightarrow> (Inl e, rnd')
      | (Inr (agentPos, path), rnd') \<Rightarrow>
          (if agentPos = goal \<and> enat (length path) < bestLength
           then swarmLoop i iterations start goal m (Some path) (enat (length path)) rnd'
           else swarmLoop i iterations start goal m bestPath bestLength rnd'))"

definition findPathSwarm ::
  "Position \<Rightarrow> Position \<Rightarrow> grid \<Rightarrow> nat \<Rightarrow> nat \<Rightarrow> real stream \<Rightarrow> (error + Position list option) \<times> real stream" where
  "findPathSwarm start goal m swarmSize iterations rnd =
     swarmLoop swarmSize iterations start goal m None \<infinity> rnd"

section \<open>The building service (building.service.ts)\<close>

text \<open>
  \<^verbatim>\<open>interface Person\<close>. \<^verbatim>\<open>currentPathIndex\<close> is only ever assigned 0 or a sum of itself
  and \<^verbatim>\<open>movementSpeed\<close>, and \<^verbatim>\<open>movementSpeed\<close> only 1: both are natural numbers.
  The optional \<^verbatim>\<open>trapped\<close> flag is \<open>None\<close> while it is \<^verbatim>\<open>undefined\<close>.
\<close>

record Person =
  person_id :: string
  person_name :: string
  person_position :: Position
  targetPosition :: "Position option"
  person_path :: "Position list"
  currentPathIndex :: nat
  isEvacuated :: bool
  movementSpeed :: nat
  trapped :: "bool option"

text \<open>
  The state of \<^verbatim>\<open>BuildingService\<close>. \<^verbatim>\<open>firePositions: Set<string>\<close> holds the keys
  \<^verbatim>\<open>"x,y,floor"\<close> in insertion order; a key stands for its position (\<^verbatim>\<open>positionToKey\<close>
  and \<^verbatim>\<open>keyToPosition\<close> are inverse on integer coordinates), so the set is the list of
  its positions in insertion order, without repetition. The observables the service
  publishes copies of this state on are not modelled.
\<close>

record Building =
  buildingMap :: grid
  firePositions :: "Position list"
  people :: "Person list"
  timestep :: nat
  isSimulationRunning :: bool
  fireSpreadRate :: real

text \<open>\<^verbatim>\<open>Set.prototype.add\<close>.\<close>

definition setAdd :: "'a \<Rightarrow> 'a list \<Rightarrow> 'a list" where
  "setAdd v vs = (if v \<in> set vs then vs else vs @ [v])"

text \<open>
  \<^verbatim>\<open>buildingMap[x][y][floor] = c\<close>. Every such write of the program is at a cell that a
  read has just found to hold a cell kind, or at a recorded fire position, all of which
  are cells of the grid in every state reached from one without fire (lemma
  \<open>run_fireRecorded\<close> below); the model leaves the grid as it is anywhere else.
\<close>

definition writeCell :: "grid \<Rightarrow> Position \<Rightarrow> CellType \<Rightarrow> grid" where
  "writeCell m pos c =
     (if kindAt m pos = None then m
      else m[nat (pos_x pos) :=
               (m ! nat (pos_x pos))[nat (pos_y pos) :=
                  (m ! nat (pos_x pos) ! nat (pos_y pos))[nat (pos_floor pos) := c]]])"

text \<open>\<^verbatim>\<open>BuildingService.isValidPosition\<close> (bounds only).\<close>

definition isValidPosition_building :: "Building \<Rightarrow> int \<Rightarrow> int \<Rightarrow> int \<Rightarrow> bool" where
  "isValidPosition_building b x y f \<longleftrightarrow>
     x \<ge> 0 \<and> x < int (length (buildingMap b)) \<and>
     y \<ge> 0 \<and> y < int (length (buildingMap b ! 0)) \<and>
     f \<ge> 0 \<and> f < int (length (buildingMap b ! 0 ! 0))"

text \<open>\<^verbatim>\<open>startFire\<close>: the result (or the error raised) and the state afterwards.\<close>

definition startFire :: "Position \<Rightarrow> Building \<Rightarrow> (error + bool) \<times> Building" where
  "startFire pos b =
     (if \<not> isValidPosition_building b (pos_x pos) (pos_y pos) (pos_floor pos) then (Inr False, b)
      else (case readCell (buildingMap b) (pos_x pos) (pos_y pos) (pos_floor pos) of
              Inl e \<Rightarrow> (Inl e, b)
            | Inr c \<Rightarrow>
                (if c = Some WALKABLE
                 then (Inr True,
                       b\<lparr>buildingMap := writeCell (buildingMap b) pos FIRE,
                         firePositions := setAdd pos (firePositions b)\<rparr>)
                 else (Inr False, b))))"

text \<open>
  \<^verbatim>\<open>spreadFire\<close>. The offsets of the two nested loops \<^verbatim>\<open>dx = -1..1\<close>, \<^verbatim>\<open>dy = -1..1\<close>
  without (0,0); a draw is taken only for a valid Walkable cell (\<^verbatim>\<open>&&\<close>).
\<close>

definition spreadOffsets :: "(int \<times> int) list" where
  "spreadOffsets = filter (\<lambda>(dx, dy). \<not> (dx = 0 \<and> dy = 0))
                     (concat (map (\<lambda>dx. map (\<lambda>dy. (dx, dy)) [-1, 0, 1]) [-1, 0, 1]))"

fun igniteAround ::
  "Building \<Rightarrow> Position \<Rightarrow> (int \<times> int) list \<Rightarrow> real stream \<Rightarrow> (error + Position list) \<times> real stream" where
  "igniteAround b firePos [] rnd = (Inr [], rnd)"
| "igniteAround b firePos ((dx, dy) # ds) rnd =
     (let newX = pos_x firePos + dx;
          newY = pos_y firePos + dy;
          newPos = \<lparr>pos_x = newX, pos_y = newY, pos_floor = pos_floor firePos\<rparr>
      in if \<not> isValidPosition_building b newX newY (pos_floor firePos)
         then igniteAround b firePos ds rnd
         else (case readCell (buildingMap b) newX newY (pos_floor firePos) of
                 Inl e \<Rightarrow> (Inl e, rnd)
               | Inr c \<Rightarrow>
                   (if c \<noteq> Some WALKABLE then igniteAround b firePos ds rnd
                    else if shd rnd < fireSpreadRate b
                    then (case igniteAround b firePos ds (stl rnd) of
                            (Inl e, rnd') \<Rightarrow> (Inl e, rnd')
                          | (Inr ps, rnd') \<Rightarrow> (Inr (newPos # ps), rnd'))
                    else igniteAround b firePos ds (stl rnd))))"

fun newFirePositions ::
  "Building \<Rightarrow> Position list \<Rightarrow> real stream \<Rightarrow> (error + Position list) \<times> real stream" where
  "newFirePositions b [] rnd = (Inr [], rnd)"
| "newFirePositions b (firePos # rest) rnd =
     (case igniteAround b firePos spreadOffsets rnd of
        (Inl e, rnd') \<Rightarrow> (Inl e, rnd')
      | (Inr ps, rnd') \<Rightarrow>
          (case newFirePositions b rest rnd' of
             (Inl e, rnd'') \<Rightarrow> (Inl e, rnd'')
           | (Inr qs, rnd'') \<Rightarrow> (Inr (ps @ qs), rnd'')))"

fun applyFire :: "Position list \<Rightarrow> Building \<Rightarrow> Building" where
  "applyFire [] b = b"
| "applyFire (pos # rest) b =
     applyFire rest
       (b\<lparr>buildingMap := writeCell (buildingMap b) pos FIRE,
          firePositions := setAdd pos (firePositions b)\<rparr>)"

text \<open>An error leaves the state as it was: nothing is written before the loops end.\<close>

definition spreadFire :: "real stream \<Rightarrow> Building \<Rightarrow> (error + Building) \<times> real stream" where
  "spreadFire rnd b =
     (case newFirePositions b (firePositions b) rnd of
        (Inl e, rnd') \<Rightarrow> (Inl e, rnd')
      | (Inr ps, rnd') \<Rightarrow> (Inr (applyFire ps b), rnd'))"

text \<open>Decimal digits of a natural number, for \<^verbatim>\<open>`Person ${this.people.length + 1}`\<close>.\<close>

fun decimal :: "nat \<Rightarrow> string" where
  "decimal n =
     (if n < 10 then [''0123456789'' ! n]
      else decimal (n div 10) @ [''0123456789'' ! (n mod 10)])"

text \<open>
  \<^verbatim>\<open>addPerson\<close>. The identifier \<^verbatim>\<open>`person_${Date.now()}_${Math.random()}`\<close> is taken as
  an argument. A missing or empty \<^verbatim>\<open>name\<close> is replaced by the default.
\<close>

definition addPerson :: "Position \<Rightarrow> string option \<Rightarrow> string \<Rightarrow> Building \<Rightarrow> (error + Person) \<times> Building" where
  "addPerson pos name newId b =
     (if \<not> isValidPosition_building b (pos_x pos) (pos_y pos) (pos_floor pos)
      then (Inl InvalidPosition, b)
      else (case readCell (buildingMap b) (pos_x pos) (pos_y pos) (pos_floor pos) of
              Inl e \<Rightarrow> (Inl e, b)
            | Inr cellType \<Rightarrow>
                (if cellType \<noteq> Some WALKABLE \<and> cellType \<noteq> Some STAIRS \<and> cellType \<noteq> Some EXIT
                 then (Inl NotWalkable, b)
                 else (let person =
                             \<lparr>person_id = newId,
                              person_name =
                                (case name of
                                   None \<Rightarrow> ''Person '' @ decimal (length (people b) + 1)
                                 | Some n \<Rightarrow>
                                     if n = [] then ''Person '' @ decimal (length (people b) + 1)
                                     else n),
                              person_position = pos,
                              targetPosition = None,
                              person_path = [],
                              currentPathIndex = 0,
                              isEvacuated = False,
                              movementSpeed = 1,
                              trapped = None\<rparr>
                       in (Inr person, b\<lparr>people := people b @ [person]\<rparr>)))))"

definition removePerson :: "string \<Rightarrow> Building \<Rightarrow> Building" where
  "removePerson personId b = b\<lparr>people := filter (\<lambda>p. person_id p \<noteq> personId) (people b)\<rparr>"

text \<open>\<^verbatim>\<open>setPersonPath\<close>: the first person with the identifier, if any.\<close>

fun setPathOfFirst :: "string \<Rightarrow> Position list \<Rightarrow> Person list \<Rightarrow> Person list" where
  "setPathOfFirst personId newPath [] = []"
| "setPathOfFirst personId newPath (p # ps) =
     (if person_id p = personId
      then p\<lparr>person_path := newPath, currentPathIndex := 0,
             targetPosition := (if length newPath > 0 then Some (last newPath) else targetPosition p)\<rparr> # ps
      else p # setPathOfFirst personId newPath ps)"

definition setPersonPath :: "string \<Rightarrow> Position list \<Rightarrow> Building \<Rightarrow> Building" where
  "setPersonPath personId newPath b = b\<lparr>people := setPathOfFirst personId newPath (people b)\<rparr>"

definition setFireSpreadRate :: "real \<Rightarrow> Building \<Rightarrow> Building" where
  "setFireSpreadRate rate b = b\<lparr>fireSpreadRate := max 0 (min 1 rate)\<rparr>"

definition startSimulation :: "Building \<Rightarrow> Building" where
  "startSimulation b = (if isSimulationRunning b then b else b\<lparr>isSimulationRunning := True\<rparr>)"

definition stopSimulation :: "Building \<Rightarrow> Building" where
  "stopSimulation b = b\<lparr>isSimulationRunning := False\<rparr>"

text \<open>\<^verbatim>\<open>resetSimulation\<close>: every recorded fire position becomes Walkable again.\<close>

definition resetSimulation :: "Building \<Rightarrow> Building" where
  "resetSimulation b =
     (stopSimulation b)
       \<lparr>buildingMap := fold (\<lambda>pos m. writeCell m pos WALKABLE) (firePositions b) (buildingMap b),
        firePositions := [],
        people := map (\<lambda>person. person\<lparr>isEvacuated := False, person_path := [],
                                         currentPathIndex := 0\<rparr>) (people b),
        timestep := 0\<rparr>"

text \<open>\<^verbatim>\<open>getExitPositions\<close>: the cells are scanned by x, then y, then floor.\<close>

definition scanOrder :: "grid \<Rightarrow> (nat \<times> nat \<times> nat) list" where
  "scanOrder m =
     concat (map (\<lambda>x. concat (map (\<lambda>y. map (\<lambda>f. (x, y, f)) [0..<length (m ! 0 ! 0)])
                                  [0..<length (m ! 0)]))
               [0..<length m])"

fun collectExits :: "grid \<Rightarrow> (nat \<times> nat \<times> nat) list \<Rightarrow> error + Position list" where
  "collectExits m [] = Inr []"
| "collectExits m ((x, y, f) # rest) =
     (case readCell m (int x) (int y) (int f) of
        Inl e \<Rightarrow> Inl e
      | Inr c \<Rightarrow>
          (case collectExits m rest of
             Inl e \<Rightarrow> Inl e
           | Inr exits \<Rightarrow>
               Inr (if c = Some EXIT
                    then \<lparr>pos_x = int x, pos_y = int y, pos_floor = int f\<rparr> # exits
                    else exits)))"

definition getExitPositions :: "grid \<Rightarrow> error + Position list" where
  "getExitPositions m = collectExits m (scanOrder m)"

text \<open>
  \<^verbatim>\<open>isPathBlockedByFire\<close>, and the same test written inline in the building service:
  \<^verbatim>\<open>path.some(pos => buildingMap[pos.x][pos.y][pos.floor] === CellType.FIRE)\<close>.
\<close>

fun isPathBlockedByFire :: "Position list \<Rightarrow> grid \<Rightarrow> error + bool" where
  "isPathBlockedByFire [] m = Inr False"
| "isPathBlockedByFire (pos # rest) m =
     (case readCell m (pos_x pos) (pos_y pos) (pos_floor pos) of
        Inl e \<Rightarrow> Inl e
      | Inr c \<Rightarrow> (if c = Some FIRE then Inr True else isPathBlockedByFire rest m))"

text \<open>
  The loop over the exits in \<^verbatim>\<open>recalculateBlockedPaths\<close>: the first shortest fire-free
  A* path. \<^verbatim>\<open>shortest\<close> starts at \<^verbatim>\<open>Infinity\<close>.
\<close>

fun bestCandidate ::
  "Position \<Rightarrow> grid \<Rightarrow> Position list \<Rightarrow> Position list option \<Rightarrow> enat \<Rightarrow> error + Position list option" where
  "bestCandidate pos m [] bestPath shortest = Inr bestPath"
| "bestCandidate pos m (exit # exits) bestPath shortest =
     (case findPathAStar pos exit m of
        Inl e \<Rightarrow> Inl e
      | Inr None \<Rightarrow> bestCandidate pos m exits bestPath shortest
      | Inr (Some candidate) \<Rightarrow>
          (case isPathBlockedByFire candidate m of
             Inl e \<Rightarrow> Inl e
           | Inr blocked \<Rightarrow>
               (if \<not> blocked \<and> enat (length candidate) < shortest
                then bestCandidate pos m exits (Some candidate) (enat (length candidate))
                else bestCandidate pos m exits bestPath shortest)))"

text \<open>The body of the loop over the people; the person is only written to at its end.\<close>

definition recalculatePerson :: "grid \<Rightarrow> Position list \<Rightarrow> Person \<Rightarrow> error + Person" where
  "recalculatePerson m exits person =
     (if isEvacuated person then Inr person
      else
        (let hasNoPath = (length (person_path person) = 0);
             remainingPath = drop (currentPathIndex person) (person_path person)
         in case isPathBlockedByFire remainingPath m of
              Inl e \<Rightarrow> Inl e
            | Inr pathBlocked \<Rightarrow>
                (if \<not> hasNoPath \<and> \<not> pathBlocked then Inr person
                 else (case bestCandidate (person_position person) m exits None \<infinity> of
                         Inl e \<Rightarrow> Inl e
                       | Inr (Some bestPath) \<Rightarrow>
                           Inr (person\<lparr>person_path := bestPath, currentPathIndex := 0,
                                       trapped := Some False\<rparr>)
                       | Inr None \<Rightarrow> Inr (person\<lparr>trapped := Some True\<rparr>)))))"

text \<open>
  A loop over the people that an error leaves half done: the people before the one at
  which the error is raised have been updated, the others not.
\<close>

fun forEachPerson :: "(Person \<Rightarrow> error + Person) \<Rightarrow> Person list \<Rightarrow> Person list \<times> error option" where
  "forEachPerson body [] = ([], None)"
| "forEachPerson body (person # rest) =
     (case body person of
        Inl e \<Rightarrow> (person # rest, Some e)
      | Inr person' \<Rightarrow>
          (case forEachPerson body rest of (rest', err) \<Rightarrow> (person' # rest', err)))"

definition recalculateBlockedPaths :: "Building \<Rightarrow> Building \<times> error option" where
  "recalculateBlockedPaths b =
     (case getExitPositions (buildingMap b) of
        Inl e \<Rightarrow> (b, Some e)
      | Inr exits \<Rightarrow>
          (case forEachPerson (recalculatePerson (buildingMap b) exits) (people b) of
             (people', err) \<Rightarrow> (b\<lparr>people := people'\<rparr>, err)))"

text \<open>The loop over the exits in \<^verbatim>\<open>movePeople\<close>, left at the first usable path.\<close>

fun firstEscape :: "Position \<Rightarrow> grid \<Rightarrow> Position list \<Rightarrow> error + Position list option" where
  "firstEscape pos m [] = Inr None"
| "firstEscape pos m (exit # exits) =
     (case findPathAStar pos exit m of
        Inl e \<Rightarrow> Inl e
      | Inr None \<Rightarrow> firstEscape pos m exits
      | Inr (Some newPath) \<Rightarrow>
          (if length newPath > 1
           then (case isPathBlockedByFire newPath m of
                   Inl e \<Rightarrow> Inl e
                 | Inr onFire \<Rightarrow> (if \<not> onFire then Inr (Some newPath) else firstEscape pos m exits))
           else firstEscape pos m exits))"

definition movePerson :: "grid \<Rightarrow> Person \<Rightarrow> error + Person" where
  "movePerson m person =
     (if isEvacuated person \<or> length (person_path person) = 0 \<or> trapped person = Some True
      then Inr person
      else if currentPathIndex person < length (person_path person) - 1
      then (let nextIndex = currentPathIndex person + movementSpeed person;
                targetIndex = min nextIndex (length (person_path person) - 1);
                nextPosition = person_path person ! targetIndex
            in case readCell m (pos_x nextPosition) (pos_y nextPosition) (pos_floor nextPosition) of
                 Inl e \<Rightarrow> Inl e
               | Inr c \<Rightarrow>
                   (if c = Some FIRE
                    then (case getExitPositions m of
                            Inl e \<Rightarrow> Inl e
                          | Inr exits \<Rightarrow>
                              (case firstEscape (person_position person) m exits of
                                 Inl e \<Rightarrow> Inl e
                               | Inr (Some newPath) \<Rightarrow>
                                   Inr (person\<lparr>person_path := newPath, currentPathIndex := 0\<rparr>)
                               | Inr None \<Rightarrow> Inr (person\<lparr>trapped := Some True\<rparr>)))
                    else Inr (person\<lparr>currentPathIndex := targetIndex,
                                     person_position := nextPosition,
                                     isEvacuated := (c = Some EXIT \<or> isEvacuated person)\<rparr>)))
      else Inr person)"

definition movePeople :: "Building \<Rightarrow> Building \<times> error option" where
  "movePeople b =
     (case forEachPerson (movePerson (buildingMap b)) (people b) of
        (people', err) \<Rightarrow> (b\<lparr>people := people'\<rparr>, err))"

text \<open>
  \<^verbatim>\<open>step\<close>: fire spread, replanning, movement, in this order; an error ends the step where
  it is raised and leaves the state as it is then.
\<close>

definition step :: "real stream \<Rightarrow> Building \<Rightarrow> Building \<times> error option" where
  "step rnd b =
     (case spreadFire rnd b of
        (Inl e, rnd') \<Rightarrow> (b, Some e)
      | (Inr b1, rnd') \<Rightarrow>
          (case recalculateBlockedPaths b1 of
             (b2, Some e) \<Rightarrow> (b2, Some e)
           | (b2, None) \<Rightarrow>
               (case movePeople b2 of
                  (b3, Some e) \<Rightarrow> (b3, Some e)
                | (b3, None) \<Rightarrow> (b3\<lparr>timestep := timestep b3 + 1\<rparr>, None))))"

text \<open>The operations a caller (or the timer) performs on the service between resets of the grid.\<close>

datatype operation =
    StartFire Position
  | Step "real stream"
  | AddPerson Position "string option" string
  | RemovePerson string
  | SetPersonPath string "Position list"
  | SetFireSpreadRate real
  | StartSimulation
  | StopSimulation
  | ResetSimulation

fun perform :: "operation \<Rightarrow> Building \<Rightarrow> Building" where
  "perform (StartFire pos) b = snd (startFire pos b)"
| "perform (Step rnd) b = fst (step rnd b)"
| "perform (AddPerson pos name newId) b = snd (addPerson pos name newId b)"
| "perform (RemovePerson personId) b = removePerson personId b"
| "perform (SetPersonPath personId newPath) b = setPersonPath personId newPath b"
| "perform (SetFireSpreadRate rate) b = setFireSpreadRate rate b"
| "perform StartSimulation b = startSimulation b"
| "perform StopSimulation b = stopSimulation b"
| "perform ResetSimulation b = resetSimulation b"

text \<open>The state after a sequence of operations, first operation first.\<close>

definition run :: "operation list \<Rightarrow> Building \<Rightarrow> Building" where
  "run ops b = fold perform ops b"

section \<open>Sample buildings\<close>

text \<open>
  A 2 x 2 building of two floors: a stairs column at (0,0), an exit at (1,1,0) and a
  burning cell at (1,0,0). Each innermost list is one column, ground floor first.
\<close>

definition twoFloors :: grid where
  "twoFloors = [[[STAIRS, STAIRS], [WALKABLE, WALL]],
                [[FIRE, WALKABLE], [EXIT, WALKABLE]]]"

text \<open>A corridor of three cells with the exit at its far end.\<close>

definition corridor :: grid where
  "corridor = [[[WALKABLE]], [[WALKABLE]], [[EXIT]]]"

text \<open>Two Walkable cells with a Wall between them.\<close>

definition walled :: grid where
  "walled = [[[WALKABLE]], [[WALL]], [[WALKABLE]]]"

text \<open>A service state on a given grid with no fire and no people, as after \<^verbatim>\<open>initializeBuilding\<close>.\<close>

definition emptyBuilding :: "grid \<Rightarrow> Building" where
  "emptyBuilding m =
     \<lparr>buildingMap = m, firePositions = [], people = [], timestep = 0,
      isSimulationRunning = False, fireSpreadRate = 1 / 10\<rparr>"

lemmas grid_eval = getNeighbors_def directions_def isValidPosition_def isValidMapPosition_def
  readCell_def at_index_def stairNeighbors_def stairTarget_def

section \<open>Neighbour enumeration: the sample\<close>

theorem getNeighbors_exact_witness:
  "rectangular twoFloors \<and> inBounds twoFloors \<lparr>pos_x = 0, pos_y = 0, pos_floor = 0\<rparr> \<and>
   (\<exists>ns. getNeighbors \<lparr>pos_x = 0, pos_y = 0, pos_floor = 0\<rparr> twoFloors = Inr ns \<and>
      set ns = {q. legalMove twoFloors \<lparr>pos_x = 0, pos_y = 0, pos_floor = 0\<rparr> q} \<and>
      (\<forall>q \<in> set ns. inBounds twoFloors q \<and> kindAt twoFloors q \<noteq> Some WALL \<and>
         kindAt twoFloors q \<noteq> Some FIRE))"
proof -
  have r: "rectangular twoFloors"
    by (simp add: rectangular_def twoFloors_def)
  have b: "inBounds twoFloors \<lparr>pos_x = 0, pos_y = 0, pos_floor = 0\<rparr>"
    by (simp add: inBounds_def kindAt_def at_index_def twoFloors_def)
  from getNeighbors_exact [OF r b] r b show ?thesis by blast
qed

lemma getNeighbors_twoFloors:
  "getNeighbors \<lparr>pos_x = 0, pos_y = 0, pos_floor = 0\<rparr> twoFloors =
     Inr [\<lparr>pos_x = 0, pos_y = 1, pos_floor = 0\<rparr>, \<lparr>pos_x = 1, pos_y = 1, pos_floor = 0\<rparr>,
          \<lparr>pos_x = 0, pos_y = 0, pos_floor = 1\<rparr>]"
  by (simp add: getNeighbors_def directions_def isValidPosition_def isValidMapPosition_def
      readCell_def at_index_def stairNeighbors_def stairTarget_def twoFloors_def)

section \<open>Placing a person (addPerson)\<close>

lemma readCell_Inr_kindAt:
  "readCell m (pos_x p) (pos_y p) (pos_floor p) = Inr c \<Longrightarrow> kindAt m p = c"
  by (auto simp: readCell_def kindAt_def split: option.splits)

lemma position_eta [simp]:
  "\<lparr>pos_x = pos_x p, pos_y = pos_y p, pos_floor = pos_floor p\<rparr> = (p :: Position)"
  by (cases p) simp

lemma isValidPosition_building_iff:
  "isValidPosition_building b x y f = isValidMapPosition x y f (buildingMap b)"
  by (simp add: isValidPosition_building_def isValidMapPosition_def)

lemma valid_building_inBounds:
  assumes "rectangular (buildingMap b)"
  shows "isValidPosition_building b (pos_x p) (pos_y p) (pos_floor p) \<longleftrightarrow> inBounds (buildingMap b) p"
  using valid_iff_kindAt [OF assms, of "pos_x p" "pos_y p" "pos_floor p"]
  by (simp add: isValidPosition_building_iff inBounds_def)

lemma readCell_inBounds:
  "inBounds m p \<Longrightarrow> readCell m (pos_x p) (pos_y p) (pos_floor p) = Inr (kindAt m p)"
  by (auto simp: inBounds_def readCell_def kindAt_def split: option.splits)

lemma addPerson_success:
  assumes "addPerson pos name newId b = (Inr person, b')"
  shows "inBounds (buildingMap b) pos \<and> traversable (kindAt (buildingMap b) pos) \<and>
         b' = b\<lparr>people := people b @ [person]\<rparr> \<and>
         person_position person = pos \<and> person_path person = [] \<and>
         currentPathIndex person = 0 \<and> \<not> isEvacuated person"
proof -
  from assms obtain c where
    c: "readCell (buildingMap b) (pos_x pos) (pos_y pos) (pos_floor pos) = Inr c"
    and ok: "c = Some WALKABLE \<or> c = Some STAIRS \<or> c = Some EXIT"
    by (auto simp: addPerson_def Let_def split: if_splits sum.splits)
  from readCell_Inr_kindAt [OF c] ok have
    "inBounds (buildingMap b) pos \<and> traversable (kindAt (buildingMap b) pos)"
    by (auto simp: inBounds_def traversable_def)
  moreover from assms have
    "b' = b\<lparr>people := people b @ [person]\<rparr> \<and>
     person_position person = pos \<and> person_path person = [] \<and>
     currentPathIndex person = 0 \<and> \<not> isEvacuated person"
    by (auto simp: addPerson_def Let_def split: if_splits sum.splits)
  ultimately show ?thesis by simp
qed

lemma addPerson_failure:
  assumes "addPerson pos name newId b = (Inl e, b')"
  shows "b' = b"
  using assms by (auto simp: addPerson_def Let_def split: if_splits sum.splits)

text \<open>
  Claim C9. \<^verbatim>\<open>addPerson\<close> either raises an error and leaves the whole state (grid and
  people) as it was, or appends exactly one person who stands at the given position
  (never a clamped one), is not evacuated and has an empty path and progress index 0,
  and the grid is unchanged. It succeeds only on a cell of the grid whose kind is
  Walkable, Stairs or Exit: a position outside the grid, a Wall cell and a Fire cell are
  each rejected with an error; on a rectangular grid these are the
  \<^verbatim>\<open>Invalid position\<close> and the \<^verbatim>\<open>Position is not walkable\<close> errors.
\<close>

theorem addPerson_all_or_nothing:
  "(case addPerson pos name newId b of
      (Inl e, b') \<Rightarrow> b' = b
    | (Inr person, b') \<Rightarrow>
        inBounds (buildingMap b) pos \<and> traversable (kindAt (buildingMap b) pos) \<and>
        b' = b\<lparr>people := people b @ [person]\<rparr> \<and>
        buildingMap b' = buildingMap b \<and>
        person_position person = pos \<and> person_path person = [] \<and>
        currentPathIndex person = 0 \<and> \<not> isEvacuated person) \<and>
   ((\<not> inBounds (buildingMap b) pos \<or> kindAt (buildingMap b) pos = Some WALL \<or>
      kindAt (buildingMap b) pos = Some FIRE) \<longrightarrow>
      (\<exists>e. addPerson pos name newId b = (Inl e, b))) \<and>
   (rectangular (buildingMap b) \<longrightarrow>
      (\<not> inBounds (buildingMap b) pos \<longrightarrow> addPerson pos name newId b = (Inl InvalidPosition, b)) \<and>
      (kindAt (buildingMap b) pos = Some WALL \<or> kindAt (buildingMap b) pos = Some FIRE \<longrightarrow>
         addPerson pos name newId b = (Inl NotWalkable, b)))"
proof (intro conjI impI)
  show "case addPerson pos name newId b of
      (Inl e, b') \<Rightarrow> b' = b
    | (Inr person, b') \<Rightarrow>
        inBounds (buildingMap b) pos \<and> traversable (kindAt (buildingMap b) pos) \<and>
        b' = b\<lparr>people := people b @ [person]\<rparr> \<and>
        buildingMap b' = buildingMap b \<and>
        person_position person = pos \<and> person_path person = [] \<and>
        currentPathIndex person = 0 \<and> \<not> isEvacuated person"
  proof (cases "addPerson pos name newId b")
    case (Pair r b')
    show ?thesis
    proof (cases r)
      case (Inl e)
      with Pair addPerson_failure show ?thesis by simp
    next
      case (Inr person)
      with Pair addPerson_success [of pos name newId b person b'] show ?thesis by simp
    qed
  qed
next
  assume bad: "\<not> inBounds (buildingMap b) pos \<or> kindAt (buildingMap b) pos = Some WALL \<or>
      kindAt (buildingMap b) pos = Some FIRE"
  obtain r b' where rb: "addPerson pos name newId b = (r, b')" by (cases "addPerson pos name newId b")
  show "\<exists>e. addPerson pos name newId b = (Inl e, b)"
  proof (cases r)
    case (Inl e)
    with rb addPerson_failure [of pos name newId b e b'] show ?thesis by simp
  next
    case (Inr person)
    with rb addPerson_success [of pos name newId b person b'] bad show ?thesis
      by (auto simp: traversable_def)
  qed
next
  assume r: "rectangular (buildingMap b)" and out: "\<not> inBounds (buildingMap b) pos"
  with valid_building_inBounds [OF r, of pos] show "addPerson pos name newId b = (Inl InvalidPosition, b)"
    by (simp add: addPerson_def)
next
  assume r: "rectangular (buildingMap b)"
    and k: "kindAt (buildingMap b) pos = Some WALL \<or> kindAt (buildingMap b) pos = Some FIRE"
  then have inb: "inBounds (buildingMap b) pos" by (auto simp: inBounds_def)
  with valid_building_inBounds [OF r, of pos] readCell_inBounds [OF inb] k
  show "addPerson pos name newId b = (Inl NotWalkable, b)"
    by (auto simp: addPerson_def)
qed

theorem addPerson_all_or_nothing_witness:
  "rectangular twoFloors \<and>
   addPerson \<lparr>pos_x = 5, pos_y = 0, pos_floor = 0\<rparr> None ''a'' (emptyBuilding twoFloors)
     = (Inl InvalidPosition, emptyBuilding twoFloors) \<and>
   addPerson \<lparr>pos_x = 0, pos_y = 1, pos_floor = 1\<rparr> None ''a'' (emptyBuilding twoFloors)
     = (Inl NotWalkable, emptyBuilding twoFloors) \<and>
   addPerson \<lparr>pos_x = 1, pos_y = 0, pos_floor = 0\<rparr> None ''a'' (emptyBuilding twoFloors)
     = (Inl NotWalkable, emptyBuilding twoFloors) \<and>
   (\<exists>person. addPerson \<lparr>pos_x = 0, pos_y = 1, pos_floor = 0\<rparr> None ''a'' (emptyBuilding twoFloors)
     = (Inr person, (emptyBuilding twoFloors)\<lparr>people := [person]\<rparr>) \<and>
     person_position person = \<lparr>pos_x = 0, pos_y = 1, pos_floor = 0\<rparr> \<and> person_path person = [] \<and>
     currentPathIndex person = 0 \<and> \<not> isEvacuated person)"
proof -
  have r: "rectangular (buildingMap (emptyBuilding twoFloors))"
    by (simp add: rectangular_def twoFloors_def emptyBuilding_def)
  have k: "\<not> inBounds (buildingMap (emptyBuilding twoFloors)) \<lparr>pos_x = 5, pos_y = 0, pos_floor = 0\<rparr>"
    "kindAt (buildingMap (emptyBuilding twoFloors)) \<lparr>pos_x = 0, pos_y = 1, pos_floor = 1\<rparr> = Some WALL"
    "kindAt (buildingMap (emptyBuilding twoFloors)) \<lparr>pos_x = 1, pos_y = 0, pos_floor = 0\<rparr> = Some FIRE"
    by (simp_all add: inBounds_def kindAt_def at_index_def twoFloors_def emptyBuilding_def)
  have ok: "addPerson \<lparr>pos_x = 0, pos_y = 1, pos_floor = 0\<rparr> None ''a'' (emptyBuilding twoFloors)
     = (Inr \<lparr>person_id = ''a'', person_name = ''Person 1'',
             person_position = \<lparr>pos_x = 0, pos_y = 1, pos_floor = 0\<rparr>, targetPosition = None,
             person_path = [], currentPathIndex = 0, isEvacuated = False, movementSpeed = 1,
             trapped = None\<rparr>,
        (emptyBuilding twoFloors)\<lparr>people := [\<lparr>person_id = ''a'', person_name = ''Person 1'',
             person_position = \<lparr>pos_x = 0, pos_y = 1, pos_floor = 0\<rparr>, targetPosition = None,
             person_path = [], currentPathIndex = 0, isEvacuated = False, movementSpeed = 1,
             trapped = None\<rparr>]\<rparr>)"
    by (simp add: addPerson_def isValidPosition_building_def readCell_def at_index_def
        twoFloors_def emptyBuilding_def Let_def)
  from addPerson_all_or_nothing [where pos = "\<lparr>pos_x = 5, pos_y = 0, pos_floor = 0\<rparr>" and name = None and newId = "''a''" and b = "emptyBuilding twoFloors"]
    addPerson_all_or_nothing [where pos = "\<lparr>pos_x = 0, pos_y = 1, pos_floor = 1\<rparr>" and name = None and newId = "''a''" and b = "emptyBuilding twoFloors"]
    addPerson_all_or_nothing [where pos = "\<lparr>pos_x = 1, pos_y = 0, pos_floor = 0\<rparr>" and name = None and newId = "''a''" and b = "emptyBuilding twoFloors"]
    addPerson_all_or_nothing [where pos = "\<lparr>pos_x = 0, pos_y = 1, pos_floor = 0\<rparr>" and name = None and newId = "''a''" and b = "emptyBuilding twoFloors"]
    r k ok
  show ?thesis
    by (simp add: emptyBuilding_def)
qed

section \<open>Fire: ignition and spread\<close>

text \<open>Every recorded fire position is a cell of the grid whose kind is Fire.\<close>

definition fireRecorded :: "Building \<Rightarrow> bool" where
  "fireRecorded b \<longleftrightarrow> (\<forall>q \<in> set (firePositions b). kindAt (buildingMap b) q = Some FIRE)"


lemma at_index_update_same:
  "0 \<le> i \<Longrightarrow> i < int (length xs) \<Longrightarrow> at_index (xs[nat i := v]) i = Some v"
  by (simp add: at_index_def)

lemma at_index_update_other:
  "0 \<le> i \<Longrightarrow> j \<noteq> i \<Longrightarrow> at_index (xs[nat i := v]) j = at_index xs j"
  by (simp add: at_index_def nat_eq_iff)

lemma at_index_in_range: "0 \<le> i \<Longrightarrow> i < int (length xs) \<Longrightarrow> at_index xs i = Some (xs ! nat i)"
  by (simp add: at_index_def)

lemma kindAt_writeCell:
  "kindAt (writeCell m pos c) q =
     (if q = pos \<and> kindAt m pos \<noteq> None then Some c else kindAt m q)"
proof (cases "kindAt m pos = None")
  case True
  then show ?thesis by (simp add: writeCell_def)
next
  case False
  then have bx: "0 \<le> pos_x pos" "pos_x pos < int (length m)"
    by (auto simp: kindAt_def at_index_def split: option.splits if_splits)
  define col where "col = m ! nat (pos_x pos)"
  from False bx have by': "0 \<le> pos_y pos" "pos_y pos < int (length col)"
    by (auto simp: kindAt_def at_index_def col_def split: option.splits if_splits)
  define cs where "cs = col ! nat (pos_y pos)"
  from False bx by' have bf: "0 \<le> pos_floor pos" "pos_floor pos < int (length cs)"
    by (auto simp: kindAt_def at_index_def col_def cs_def split: option.splits if_splits)
  have w: "writeCell m pos c = m[nat (pos_x pos) := col[nat (pos_y pos) := cs[nat (pos_floor pos) := c]]]"
    unfolding writeCell_def col_def cs_def using False by (simp only: if_False)
  show ?thesis
  proof (cases "pos_x q = pos_x pos")
    case xne: False
    then have "q \<noteq> pos" by auto
    moreover have "kindAt (writeCell m pos c) q = kindAt m q"
      using xne bx by (simp add: w kindAt_def at_index_update_other)
    ultimately show ?thesis by simp
  next
    case xeq: True
    have l1: "at_index (writeCell m pos c) (pos_x q) = Some (col[nat (pos_y pos) := cs[nat (pos_floor pos) := c]])"
      using bx by (simp add: w xeq at_index_update_same)
    have r1: "at_index m (pos_x q) = Some col"
      using bx by (simp add: xeq at_index_in_range col_def)
    show ?thesis
    proof (cases "pos_y q = pos_y pos")
      case yne: False
      then have "q \<noteq> pos" by auto
      moreover have "kindAt (writeCell m pos c) q = kindAt m q"
        using yne by' by (simp add: kindAt_def l1 r1 at_index_update_other)
      ultimately show ?thesis by simp
    next
      case yeq: True
      have l2: "at_index (col[nat (pos_y pos) := cs[nat (pos_floor pos) := c]]) (pos_y q) =
                Some (cs[nat (pos_floor pos) := c])"
        using by' by (simp add: yeq at_index_update_same)
      have r2: "at_index col (pos_y q) = Some cs"
        using by' by (simp add: yeq at_index_in_range cs_def)
      show ?thesis
      proof (cases "pos_floor q = pos_floor pos")
        case fne: False
        then have "q \<noteq> pos" by auto
        moreover have "kindAt (writeCell m pos c) q = kindAt m q"
          using fne bf by (simp add: kindAt_def l1 r1 l2 r2 at_index_update_other)
        ultimately show ?thesis by simp
      next
        case feq: True
        with xeq yeq have "q = pos" by simp
        moreover have "kindAt (writeCell m pos c) q = Some c"
          using bf by (simp add: kindAt_def l1 r1 l2 r2 feq at_index_update_same)
        ultimately show ?thesis using False by simp
      qed
    qed
  qed
qed

lemma set_setAdd [simp]: "set (setAdd v vs) = insert v (set vs)"
  by (auto simp: setAdd_def)

lemma spreadOffsets_directions: "spreadOffsets = directions"
  by (simp add: spreadOffsets_def directions_def)

lemma igniteAround_sound:
  "igniteAround b firePos ds rnd = (Inr ps, rnd') \<Longrightarrow> p \<in> set ps \<Longrightarrow>
   p \<in> set (map (shifted firePos) ds) \<and> kindAt (buildingMap b) p = Some WALKABLE"
proof (induction ds arbitrary: rnd ps)
  case Nil
  then show ?case by simp
next
  case (Cons d ds)
  obtain dx dy where d: "d = (dx, dy)" by (cases d)
  let ?new = "\<lparr>pos_x = pos_x firePos + dx, pos_y = pos_y firePos + dy, pos_floor = pos_floor firePos\<rparr>"
  have sh: "shifted firePos d = ?new" by (simp add: shifted_def d)
  show ?case
  proof (cases "isValidPosition_building b (pos_x firePos + dx) (pos_y firePos + dy) (pos_floor firePos)")
    case False
    with Cons.prems have "igniteAround b firePos ds rnd = (Inr ps, rnd')"
      by (simp add: d Let_def)
    from Cons.IH [OF this Cons.prems(2)] show ?thesis by simp
  next
    case True
    with Cons.prems(1) obtain c where
      c: "readCell (buildingMap b) (pos_x firePos + dx) (pos_y firePos + dy) (pos_floor firePos) = Inr c"
      by (auto simp: d Let_def split: sum.splits)
    from readCell_Inr_kindAt [of "buildingMap b" ?new c] c
    have k: "kindAt (buildingMap b) ?new = c" by simp
    show ?thesis
    proof (cases "c = Some WALKABLE \<and> shd rnd < fireSpreadRate b")
      case False
      with True c Cons.prems(1) have
        "igniteAround b firePos ds rnd = (Inr ps, rnd') \<or>
         igniteAround b firePos ds (stl rnd) = (Inr ps, rnd')"
        by (auto simp: d Let_def split: if_splits)
      with Cons.IH Cons.prems(2) show ?thesis by auto
    next
      case draw: True
      with True c Cons.prems(1) obtain qs where
        qs: "igniteAround b firePos ds (stl rnd) = (Inr qs, rnd')" and ps: "ps = ?new # qs"
        by (auto simp: d Let_def split: prod.splits sum.splits)
      show ?thesis
      proof (cases "p = ?new")
        case True
        with k draw sh show ?thesis by simp
      next
        case False
        with ps Cons.prems(2) have "p \<in> set qs" by simp
        from Cons.IH [OF qs this] show ?thesis by simp
      qed
    qed
  qed
qed

lemma newFirePositions_sound:
  "newFirePositions b fps rnd = (Inr ps, rnd') \<Longrightarrow> p \<in> set ps \<Longrightarrow>
   kindAt (buildingMap b) p = Some WALKABLE \<and> (\<exists>q \<in> set fps. adjacent8 q p)"
proof (induction fps arbitrary: rnd ps)
  case Nil
  then show ?case by simp
next
  case (Cons firePos rest)
  from Cons.prems(1) obtain as r1 bs where
    a: "igniteAround b firePos spreadOffsets rnd = (Inr as, r1)"
    and b: "newFirePositions b rest r1 = (Inr bs, rnd')" and ps: "ps = as @ bs"
    by (auto split: prod.splits sum.splits)
  from ps Cons.prems(2) consider "p \<in> set as" | "p \<in> set bs" by auto
  then show ?case
  proof cases
    case 1
    from igniteAround_sound [OF a 1] show ?thesis
      by (auto simp: spreadOffsets_directions adjacent8_directions)
  next
    case 2
    from Cons.IH [OF b 2] show ?thesis by auto
  qed
qed

lemma applyFire_positions: "set (firePositions (applyFire ps b)) = set (firePositions b) \<union> set ps"
  by (induction ps arbitrary: b) auto

lemma applyFire_kind:
  "kindAt (buildingMap (applyFire ps b)) q =
     (if q \<in> set ps \<and> kindAt (buildingMap b) q \<noteq> None then Some FIRE else kindAt (buildingMap b) q)"
  by (induction ps arbitrary: b) (auto simp: kindAt_writeCell)

lemma applyFire_other_fields:
  "people (applyFire ps b) = people b \<and> timestep (applyFire ps b) = timestep b \<and>
   fireSpreadRate (applyFire ps b) = fireSpreadRate b \<and>
   isSimulationRunning (applyFire ps b) = isSimulationRunning b"
  by (induction ps arbitrary: b) auto


lemma spreadFire_sound:
  assumes "spreadFire rnd b = (Inr b', rnd')"
  shows "set (firePositions b) \<subseteq> set (firePositions b')"
    and "p \<in> set (firePositions b') \<Longrightarrow> p \<notin> set (firePositions b) \<Longrightarrow>
         kindAt (buildingMap b) p = Some WALKABLE \<and> (\<exists>q \<in> set (firePositions b). adjacent8 q p) \<and>
         kindAt (buildingMap b') p = Some FIRE"
    and "kindAt (buildingMap b') q = kindAt (buildingMap b) q \<or>
         (kindAt (buildingMap b) q = Some WALKABLE \<and> kindAt (buildingMap b') q = Some FIRE \<and>
          q \<in> set (firePositions b'))"
    and "people b' = people b"
proof -
  from assms obtain ps where ps: "newFirePositions b (firePositions b) rnd = (Inr ps, rnd')"
    and b': "b' = applyFire ps b"
    by (auto simp: spreadFire_def split: prod.splits sum.splits)
  have new: "kindAt (buildingMap b) p = Some WALKABLE \<and> (\<exists>q \<in> set (firePositions b). adjacent8 q p)"
    if "p \<in> set ps" for p
    using newFirePositions_sound [OF ps that] .
  show "set (firePositions b) \<subseteq> set (firePositions b')"
    by (simp add: b' applyFire_positions)
  show "kindAt (buildingMap b) p = Some WALKABLE \<and> (\<exists>q \<in> set (firePositions b). adjacent8 q p) \<and>
        kindAt (buildingMap b') p = Some FIRE"
    if "p \<in> set (firePositions b')" "p \<notin> set (firePositions b)"
  proof -
    from that have "p \<in> set ps" by (simp add: b' applyFire_positions)
    with new [of p] show ?thesis by (simp add: b' applyFire_kind)
  qed
  show "kindAt (buildingMap b') q = kindAt (buildingMap b) q \<or>
         (kindAt (buildingMap b) q = Some WALKABLE \<and> kindAt (buildingMap b') q = Some FIRE \<and>
          q \<in> set (firePositions b'))"
  proof (cases "q \<in> set ps")
    case True
    with new [of q] show ?thesis by (simp add: b' applyFire_positions applyFire_kind)
  next
    case False
    then show ?thesis by (simp add: b' applyFire_kind)
  qed
  show "people b' = people b"
    by (simp add: b' applyFire_other_fields)
qed

section \<open>Fire: what one operation can change\<close>

lemma forEachPerson_length: "forEachPerson body ps = (ps', err) \<Longrightarrow> length ps' = length ps"
  by (induction ps arbitrary: ps' err) (auto split: sum.splits prod.splits)

lemma recalculateBlockedPaths_grid:
  "buildingMap (fst (recalculateBlockedPaths b)) = buildingMap b \<and>
   firePositions (fst (recalculateBlockedPaths b)) = firePositions b"
  by (auto simp: recalculateBlockedPaths_def split: sum.splits prod.splits)

lemma movePeople_grid:
  "buildingMap (fst (movePeople b)) = buildingMap b \<and>
   firePositions (fst (movePeople b)) = firePositions b"
  by (auto simp: movePeople_def split: prod.splits)

text \<open>What a step does to the grid and the fire set is what its fire spread does.\<close>

lemma step_grid:
  "(buildingMap (fst (step rnd b)) = buildingMap b \<and> firePositions (fst (step rnd b)) = firePositions b) \<or>
   (\<exists>b1 rnd'. spreadFire rnd b = (Inr b1, rnd') \<and>
      buildingMap (fst (step rnd b)) = buildingMap b1 \<and>
      firePositions (fst (step rnd b)) = firePositions b1)"
proof (cases "spreadFire rnd b")
  case (Pair r rnd')
  show ?thesis
  proof (cases r)
    case (Inl e)
    with Pair show ?thesis by (simp add: step_def)
  next
    case (Inr b1)
    obtain b2 e2 where r2: "recalculateBlockedPaths b1 = (b2, e2)" by (cases "recalculateBlockedPaths b1")
    obtain b3 e3 where r3: "movePeople b2 = (b3, e3)" by (cases "movePeople b2")
    from recalculateBlockedPaths_grid [of b1] r2
    have g2: "buildingMap b2 = buildingMap b1" "firePositions b2 = firePositions b1" by simp_all
    from movePeople_grid [of b2] r3
    have g3: "buildingMap b3 = buildingMap b2" "firePositions b3 = firePositions b2" by simp_all
    have "buildingMap (fst (step rnd b)) = buildingMap b1 \<and>
          firePositions (fst (step rnd b)) = firePositions b1"
      using Pair Inr r2 r3 g2 g3 by (auto simp: step_def split: option.splits)
    with Pair Inr show ?thesis by blast
  qed
qed

lemma startFire_cases:
  "snd (startFire pos b) = b \<or>
   (kindAt (buildingMap b) pos = Some WALKABLE \<and> fst (startFire pos b) = Inr True \<and>
    snd (startFire pos b) =
      b\<lparr>buildingMap := writeCell (buildingMap b) pos FIRE, firePositions := setAdd pos (firePositions b)\<rparr>)"
  by (auto simp: startFire_def dest: readCell_Inr_kindAt split: sum.splits)

lemma kindAt_reset_fold:
  "kindAt (fold (\<lambda>pos m. writeCell m pos WALKABLE) fps m) q =
     (if q \<in> set fps \<and> kindAt m q \<noteq> None then Some WALKABLE else kindAt m q)"
  by (induction fps arbitrary: m) (auto simp: kindAt_writeCell)

text \<open>
  One operation: the fire set only grows unless the operation is the reset; a cell
  changes its kind only from Walkable to Fire, or (on reset) from a recorded fire position
  to Walkable; recorded fire positions stay Fire cells.
\<close>

lemma perform_fire_grows:
  assumes "op \<noteq> ResetSimulation"
  shows "set (firePositions b) \<subseteq> set (firePositions (perform op b))"
proof (cases op)
  case (StartFire pos)
  with startFire_cases [of pos b] show ?thesis by auto
next
  case (Step rnd)
  from step_grid [of rnd b] show ?thesis
  proof
    assume "buildingMap (fst (step rnd b)) = buildingMap b \<and> firePositions (fst (step rnd b)) = firePositions b"
    with Step show ?thesis by simp
  next
    assume "\<exists>b1 rnd'. spreadFire rnd b = (Inr b1, rnd') \<and>
      buildingMap (fst (step rnd b)) = buildingMap b1 \<and>
      firePositions (fst (step rnd b)) = firePositions b1"
    then obtain b1 rnd' where s: "spreadFire rnd b = (Inr b1, rnd')"
      and g: "firePositions (fst (step rnd b)) = firePositions b1"
      by blast
    from spreadFire_sound(1) [OF s] Step g show ?thesis by simp
  qed
next
  case (AddPerson pos name newId)
  then show ?thesis
    by (auto simp: addPerson_def Let_def split: sum.splits)
qed (use assms in \<open>simp_all add: removePerson_def setPersonPath_def setFireSpreadRate_def
      startSimulation_def stopSimulation_def\<close>)

lemma perform_cell_change:
  "kindAt (buildingMap (perform op b)) q = kindAt (buildingMap b) q \<or>
   (kindAt (buildingMap b) q = Some WALKABLE \<and> kindAt (buildingMap (perform op b)) q = Some FIRE \<and>
      q \<in> set (firePositions (perform op b))) \<or>
   (op = ResetSimulation \<and> q \<in> set (firePositions b) \<and>
      kindAt (buildingMap (perform op b)) q = Some WALKABLE)"
proof (cases op)
  case (StartFire pos)
  with startFire_cases [of pos b] show ?thesis
    by (auto simp: kindAt_writeCell split: if_splits)
next
  case (Step rnd)
  from step_grid [of rnd b] show ?thesis
  proof
    assume "buildingMap (fst (step rnd b)) = buildingMap b \<and> firePositions (fst (step rnd b)) = firePositions b"
    with Step show ?thesis by simp
  next
    assume "\<exists>b1 rnd'. spreadFire rnd b = (Inr b1, rnd') \<and>
      buildingMap (fst (step rnd b)) = buildingMap b1 \<and>
      firePositions (fst (step rnd b)) = firePositions b1"
    then obtain b1 rnd' where s: "spreadFire rnd b = (Inr b1, rnd')"
      and g: "buildingMap (fst (step rnd b)) = buildingMap b1"
             "firePositions (fst (step rnd b)) = firePositions b1"
      by blast
    from spreadFire_sound(3) [OF s, of q] Step g show ?thesis by auto
  qed
next
  case (AddPerson pos name newId)
  then show ?thesis
    by (auto simp: addPerson_def Let_def split: sum.splits)
next
  case ResetSimulation
  then show ?thesis
    by (auto simp: resetSimulation_def stopSimulation_def kindAt_reset_fold)
qed (simp_all add: removePerson_def setPersonPath_def setFireSpreadRate_def
      startSimulation_def stopSimulation_def)

lemma perform_fireRecorded:
  assumes "fireRecorded b"
  shows "fireRecorded (perform op b)"
  unfolding fireRecorded_def
proof
  fix q assume q: "q \<in> set (firePositions (perform op b))"
  show "kindAt (buildingMap (perform op b)) q = Some FIRE"
  proof (cases "q \<in> set (firePositions b)")
    case True
    with assms have old: "kindAt (buildingMap b) q = Some FIRE" by (simp add: fireRecorded_def)
    have "op \<noteq> ResetSimulation"
      using q by (auto simp: resetSimulation_def)
    with perform_cell_change [of op b q] old show ?thesis by auto
  next
    case False
    have new: "kindAt (buildingMap (perform op b)) q = Some FIRE"
    proof (cases op)
      case (StartFire pos)
      with startFire_cases [of pos b] q False show ?thesis
        by (auto simp: kindAt_writeCell)
    next
      case (Step rnd)
      from step_grid [of rnd b] q False Step obtain b1 rnd' where s: "spreadFire rnd b = (Inr b1, rnd')"
        and g: "buildingMap (fst (step rnd b)) = buildingMap b1"
               "firePositions (fst (step rnd b)) = firePositions b1"
        by auto
      from q Step g have q1: "q \<in> set (firePositions b1)" by simp
      from spreadFire_sound(2) [OF s q1 False] Step g
      show ?thesis by simp
    next
      case (AddPerson pos name newId)
      with q False show ?thesis by (auto simp: addPerson_def Let_def split: sum.splits if_splits)
    qed (use q False in \<open>auto simp: removePerson_def setPersonPath_def setFireSpreadRate_def
          startSimulation_def stopSimulation_def resetSimulation_def split: if_splits\<close>)
    then show ?thesis .
  qed
qed

lemma perform_keeps_structure:
  assumes "fireRecorded b"
    and "kindAt (buildingMap b) p = Some STAIRS \<or> kindAt (buildingMap b) p = Some EXIT \<or>
         kindAt (buildingMap b) p = Some WALL"
  shows "kindAt (buildingMap (perform op b)) p = kindAt (buildingMap b) p"
proof -
  from assms have "p \<notin> set (firePositions b)" by (auto simp: fireRecorded_def)
  with perform_cell_change [of op b p] assms(2) show ?thesis by auto
qed

lemma run_fireRecorded: "fireRecorded b \<Longrightarrow> fireRecorded (run ops b)"
  unfolding run_def by (induction ops arbitrary: b) (simp_all add: perform_fireRecorded)

lemma run_keeps_structure:
  assumes "fireRecorded b"
    and "kindAt (buildingMap b) p = Some STAIRS \<or> kindAt (buildingMap b) p = Some EXIT \<or>
         kindAt (buildingMap b) p = Some WALL"
  shows "kindAt (buildingMap (run ops b)) p = kindAt (buildingMap b) p"
  using assms unfolding run_def
proof (induction ops arbitrary: b)
  case Nil
  then show ?case by simp
next
  case (Cons op ops)
  from perform_keeps_structure [OF Cons.prems] have
    eq: "kindAt (buildingMap (perform op b)) p = kindAt (buildingMap b) p" .
  with Cons.prems(2) have "kindAt (buildingMap (perform op b)) p = Some STAIRS \<or>
      kindAt (buildingMap (perform op b)) p = Some EXIT \<or>
      kindAt (buildingMap (perform op b)) p = Some WALL" by simp
  from Cons.IH [OF perform_fireRecorded [OF Cons.prems(1)] this] eq show ?case by simp
qed

lemma run_fire_grows:
  "ResetSimulation \<notin> set ops \<Longrightarrow> set (firePositions b) \<subseteq> set (firePositions (run ops b))"
  unfolding run_def
proof (induction ops arbitrary: b)
  case Nil
  then show ?case by simp
next
  case (Cons op ops)
  then have "op \<noteq> ResetSimulation" "ResetSimulation \<notin> set ops" by auto
  from perform_fire_grows [OF this(1), of b] Cons.IH [OF this(2), of "perform op b"]
  show ?case by auto
qed

section \<open>Fire: the claims\<close>

text \<open>A row of three cells, the first burning.\<close>

definition burning :: Building where
  "burning =
     \<lparr>buildingMap = [[[FIRE]], [[WALKABLE]], [[WALKABLE]]],
      firePositions = [\<lparr>pos_x = 0, pos_y = 0, pos_floor = 0\<rparr>],
      people = [], timestep = 0, isSimulationRunning = True, fireSpreadRate = 1 / 2\<rparr>"

text \<open>
  Claim C6. The fire set only grows: every operation other than the reset, every
  sequence of operations without a reset and in particular every tick (\<open>step\<close>) leaves
  each recorded fire position in the set, and leaves every Fire cell a Fire cell. The positions a tick (or the fire spread alone)
  adds were Walkable cells before the tick and are same-floor 8-neighbours of a position
  that was in the fire set before the tick, so fire does not cascade within a tick.
\<close>

theorem fire_set_monotone:
  "(op \<noteq> ResetSimulation \<longrightarrow> set (firePositions b) \<subseteq> set (firePositions (perform op b))) \<and>
   (op \<noteq> ResetSimulation \<longrightarrow> kindAt (buildingMap b) c = Some FIRE \<longrightarrow>
      kindAt (buildingMap (perform op b)) c = Some FIRE) \<and>
   (ResetSimulation \<notin> set ops \<longrightarrow> set (firePositions b) \<subseteq> set (firePositions (run ops b))) \<and>
   set (firePositions b) \<subseteq> set (firePositions (fst (step rnd b))) \<and>
   (\<forall>p \<in> set (firePositions (fst (step rnd b))) - set (firePositions b).
      kindAt (buildingMap b) p = Some WALKABLE \<and> (\<exists>q \<in> set (firePositions b). adjacent8 q p)) \<and>
   (\<forall>b' rnd'. spreadFire rnd b = (Inr b', rnd') \<longrightarrow>
      set (firePositions b) \<subseteq> set (firePositions b') \<and>
      (\<forall>p \<in> set (firePositions b') - set (firePositions b).
         kindAt (buildingMap b) p = Some WALKABLE \<and> (\<exists>q \<in> set (firePositions b). adjacent8 q p)))"
proof (intro conjI impI allI ballI)
  assume "op \<noteq> ResetSimulation"
  then show "set (firePositions b) \<subseteq> set (firePositions (perform op b))"
    by (rule perform_fire_grows)
next
  assume "op \<noteq> ResetSimulation" "kindAt (buildingMap b) c = Some FIRE"
  with perform_cell_change [of op b c]
  show "kindAt (buildingMap (perform op b)) c = Some FIRE" by auto
next
  assume "ResetSimulation \<notin> set ops"
  then show "set (firePositions b) \<subseteq> set (firePositions (run ops b))"
    by (rule run_fire_grows)
next
  show "set (firePositions b) \<subseteq> set (firePositions (fst (step rnd b)))"
    using perform_fire_grows [of "Step rnd" b] by simp
next
  fix p assume p: "p \<in> set (firePositions (fst (step rnd b))) - set (firePositions b)"
  with step_grid [of rnd b] obtain b1 rnd' where s: "spreadFire rnd b = (Inr b1, rnd')"
    and g: "firePositions (fst (step rnd b)) = firePositions b1"
    by auto
  from p g have "p \<in> set (firePositions b1)" "p \<notin> set (firePositions b)" by simp_all
  from spreadFire_sound(2) [OF s this]
  show "kindAt (buildingMap b) p = Some WALKABLE" "\<exists>q \<in> set (firePositions b). adjacent8 q p"
    by simp_all
next
  fix b' rnd' assume s: "spreadFire rnd b = (Inr b', rnd')"
  from spreadFire_sound(1) [OF s] show "set (firePositions b) \<subseteq> set (firePositions b')" .
  fix p assume "p \<in> set (firePositions b') - set (firePositions b)"
  then have "p \<in> set (firePositions b')" "p \<notin> set (firePositions b)" by simp_all
  from spreadFire_sound(2) [OF s this]
  show "kindAt (buildingMap b) p = Some WALKABLE" "\<exists>q \<in> set (firePositions b). adjacent8 q p"
    by simp_all
qed

lemma step_burning:
  "step (sconst 0) burning =
     (burning\<lparr>buildingMap := [[[FIRE]], [[FIRE]], [[WALKABLE]]],
              firePositions := [\<lparr>pos_x = 0, pos_y = 0, pos_floor = 0\<rparr>, \<lparr>pos_x = 1, pos_y = 0, pos_floor = 0\<rparr>],
              timestep := 1\<rparr>, None)"
  by (simp add: step_def spreadFire_def burning_def spreadOffsets_def isValidPosition_building_def
      readCell_def at_index_def writeCell_def kindAt_def setAdd_def
      recalculateBlockedPaths_def getExitPositions_def scanOrder_def movePeople_def Let_def)

theorem fire_set_monotone_witness:
  "Step (sconst 0) \<noteq> ResetSimulation \<and>
   firePositions (fst (step (sconst 0) burning)) =
     [\<lparr>pos_x = 0, pos_y = 0, pos_floor = 0\<rparr>, \<lparr>pos_x = 1, pos_y = 0, pos_floor = 0\<rparr>] \<and>
   firePositions burning = [\<lparr>pos_x = 0, pos_y = 0, pos_floor = 0\<rparr>] \<and>
   set (firePositions burning) \<subseteq> set (firePositions (perform (Step (sconst 0)) burning)) \<and>
   kindAt (buildingMap burning) \<lparr>pos_x = 1, pos_y = 0, pos_floor = 0\<rparr> = Some WALKABLE \<and>
   (\<exists>q \<in> set (firePositions burning). adjacent8 q \<lparr>pos_x = 1, pos_y = 0, pos_floor = 0\<rparr>)"
proof -
  have new: "\<lparr>pos_x = 1, pos_y = 0, pos_floor = 0\<rparr> \<in>
      set (firePositions (fst (step (sconst 0) burning))) - set (firePositions burning)"
    by (simp add: step_burning) (simp add: burning_def)
  have fp: "firePositions burning = [\<lparr>pos_x = 0, pos_y = 0, pos_floor = 0\<rparr>]"
    by (simp add: burning_def)
  from fire_set_monotone [where op = "Step (sconst 0)" and b = burning and rnd = "sconst 0" and ops = "[]"]
    new fp step_burning
  show ?thesis by auto
qed

text \<open>
  Claim C10. Starting from a state with an empty fire set (as after
  \<^verbatim>\<open>initializeBuilding\<close>), after any sequence of operations (manual ignition, ticks,
  resets, changes to the people) every cell that was Stairs, Exit or Wall has its original
  kind; and \<^verbatim>\<open>startFire\<close> on a cell that is not Walkable changes nothing and does not
  return true (on a rectangular grid it returns false).
\<close>

theorem structure_never_burns:
  assumes "firePositions b0 = []"
  shows "(kindAt (buildingMap b0) p = Some STAIRS \<or> kindAt (buildingMap b0) p = Some EXIT \<or>
          kindAt (buildingMap b0) p = Some WALL \<longrightarrow>
            kindAt (buildingMap (run ops b0)) p = kindAt (buildingMap b0) p) \<and>
         (kindAt (buildingMap b) pos \<noteq> Some WALKABLE \<longrightarrow>
            snd (startFire pos b) = b \<and> fst (startFire pos b) \<noteq> Inr True \<and>
            (rectangular (buildingMap b) \<longrightarrow> startFire pos b = (Inr False, b)))"
proof (intro conjI impI)
  assume k: "kindAt (buildingMap b0) p = Some STAIRS \<or> kindAt (buildingMap b0) p = Some EXIT \<or>
          kindAt (buildingMap b0) p = Some WALL"
  from assms have "fireRecorded b0" by (simp add: fireRecorded_def)
  from run_keeps_structure [OF this k]
  show "kindAt (buildingMap (run ops b0)) p = kindAt (buildingMap b0) p" .
next
  assume nw: "kindAt (buildingMap b) pos \<noteq> Some WALKABLE"
  with startFire_cases [of pos b] show "snd (startFire pos b) = b" by auto
  from nw startFire_cases [of pos b] show "fst (startFire pos b) \<noteq> Inr True"
    by (auto simp: startFire_def dest: readCell_Inr_kindAt split: sum.splits if_splits)
  assume r: "rectangular (buildingMap b)"
  show "startFire pos b = (Inr False, b)"
  proof (cases "inBounds (buildingMap b) pos")
    case True
    with valid_building_inBounds [OF r, of pos] readCell_inBounds [OF True] nw show ?thesis
      by (simp add: startFire_def)
  next
    case False
    with valid_building_inBounds [OF r, of pos] show ?thesis
      by (simp add: startFire_def)
  qed
qed

theorem structure_never_burns_witness:
  "firePositions (emptyBuilding twoFloors) = [] \<and>
   kindAt (buildingMap (emptyBuilding twoFloors)) \<lparr>pos_x = 0, pos_y = 0, pos_floor = 0\<rparr> = Some STAIRS \<and>
   kindAt (buildingMap (run [StartFire \<lparr>pos_x = 0, pos_y = 0, pos_floor = 0\<rparr>,
                             StartFire \<lparr>pos_x = 0, pos_y = 1, pos_floor = 0\<rparr>,
                             Step (sconst 0), ResetSimulation] (emptyBuilding twoFloors)))
     \<lparr>pos_x = 0, pos_y = 0, pos_floor = 0\<rparr> = Some STAIRS \<and>
   rectangular (buildingMap (emptyBuilding twoFloors)) \<and>
   startFire \<lparr>pos_x = 0, pos_y = 0, pos_floor = 0\<rparr> (emptyBuilding twoFloors)
     = (Inr False, emptyBuilding twoFloors)"
proof -
  have f: "firePositions (emptyBuilding twoFloors) = []"
    by (simp add: emptyBuilding_def)
  have k: "kindAt (buildingMap (emptyBuilding twoFloors)) \<lparr>pos_x = 0, pos_y = 0, pos_floor = 0\<rparr> = Some STAIRS"
    by (simp add: emptyBuilding_def twoFloors_def kindAt_def at_index_def)
  have r: "rectangular (buildingMap (emptyBuilding twoFloors))"
    by (simp add: rectangular_def twoFloors_def emptyBuilding_def)
  from structure_never_burns [OF f, where p = "\<lparr>pos_x = 0, pos_y = 0, pos_floor = 0\<rparr>"
      and pos = "\<lparr>pos_x = 0, pos_y = 0, pos_floor = 0\<rparr>" and b = "emptyBuilding twoFloors"
      and ops = "[StartFire \<lparr>pos_x = 0, pos_y = 0, pos_floor = 0\<rparr>,
                  StartFire \<lparr>pos_x = 0, pos_y = 1, pos_floor = 0\<rparr>,
                  Step (sconst 0), ResetSimulation]"]
    f k r
  show ?thesis by simp
qed

section \<open>Paths in the neighbour graph\<close>

text \<open>
  One move of the neighbour graph: \<open>q\<close> is among the positions \<^verbatim>\<open>getNeighbors\<close> returns
  for \<open>p\<close>.
\<close>

definition neighbor :: "grid \<Rightarrow> Position \<Rightarrow> Position \<Rightarrow> bool" where
  "neighbor m p q \<longleftrightarrow> (\<exists>ns. getNeighbors p m = Inr ns \<and> q \<in> set ns)"

text \<open>
  A path from \<open>start\<close> to \<open>goal\<close>: a non-empty sequence that begins at \<open>start\<close>, ends at
  \<open>goal\<close> and in which each position is a neighbour of the one before.
\<close>

definition pathFromTo :: "grid \<Rightarrow> Position \<Rightarrow> Position \<Rightarrow> Position list \<Rightarrow> bool" where
  "pathFromTo m start goal ps \<longleftrightarrow>
     ps \<noteq> [] \<and> hd ps = start \<and> last ps = goal \<and> successively (neighbor m) ps"

lemma pathFromTo_single: "pathFromTo m start start [start]"
  by (simp add: pathFromTo_def)

lemma pathFromTo_extend:
  assumes "pathFromTo m start p ps" "neighbor m p q"
  shows "pathFromTo m start q (ps @ [q])"
  using assms by (auto simp: pathFromTo_def successively_append_iff)

lemma neighbor_rect:
  assumes "rectangular m" "inBounds m p"
  shows "neighbor m p q \<longleftrightarrow> legalMove m p q"
proof -
  from getNeighbors_exact [OF assms] obtain ns where
    "getNeighbors p m = Inr ns" "set ns = {q. legalMove m p q}" by blast
  then show ?thesis by (auto simp: neighbor_def)
qed




section \<open>A* returns paths and, on a rectangular grid, raises no error\<close>

lemma updateExisting_invariant:
  assumes "\<forall>n \<in> set nodes. P n" "\<And>h. P (PathNode pos (Some c) g h f)"
  shows "\<forall>n \<in> set (updateExisting pos c g f nodes). P n"
  using assms by (induction nodes) auto

lemma relaxNeighbors_invariant:
  assumes "\<forall>n \<in> set openSet. P n"
    and "\<And>q g h f. q \<in> set ns \<Longrightarrow> P (PathNode q (Some c) g h f)"
  shows "\<forall>n \<in> set (relaxNeighbors c goal closedSet ns openSet). P n"
  using assms
proof (induction ns arbitrary: openSet)
  case Nil
  then show ?case by simp
next
  case (Cons q ns)
  have new: "P (PathNode q (Some c) g h f)" for g h f
    using Cons.prems(2) [of q] by simp
  have rest: "\<And>q' g h f. q' \<in> set ns \<Longrightarrow> P (PathNode q' (Some c) g h f)"
    using Cons.prems(2) by simp
  have pushed: "\<forall>n \<in> set (openSet @ [PathNode q (Some c) g h f]). P n" for g h f
    using Cons.prems(1) new by simp
  have updated: "\<forall>n \<in> set (updateExisting q c g f openSet). P n" for g f
    using updateExisting_invariant [OF Cons.prems(1)] new by blast
  show ?case
  proof (cases "q \<in> closedSet")
    case True
    with Cons.IH [OF Cons.prems(1) rest] show ?thesis by simp
  next
    case False
    show ?thesis
    proof (cases "find (\<lambda>node. node_position node = q) openSet")
      case None
      with False Cons.IH [OF pushed rest] show ?thesis by (simp add: Let_def)
    next
      case (Some ex)
      with False Cons.IH [OF Cons.prems(1) rest] Cons.IH [OF updated rest] show ?thesis
        by (simp add: Let_def)
    qed
  qed
qed

definition nodeOk :: "grid \<Rightarrow> Position \<Rightarrow> PathNode \<Rightarrow> bool" where
  "nodeOk m start n \<longleftrightarrow> pathFromTo m start (node_position n) (reconstructPath n)"

lemma nodeOk_child:
  assumes "nodeOk m start c" "neighbor m (node_position c) q"
  shows "nodeOk m start (PathNode q (Some c) g h f)"
  using pathFromTo_extend [OF assms [unfolded nodeOk_def]] by (simp add: nodeOk_def)

declare astarLoop.simps [simp del]

lemma astarLoop_path:
  "\<forall>n \<in> set openSet. nodeOk m start n \<Longrightarrow>
   astarLoop goal m openSet closedSet = Inr (Some ps) \<Longrightarrow> pathFromTo m start goal ps"
proof (induction goal m openSet closedSet rule: astarLoop.induct)
  case (1 goal m openSet closedSet)
  show ?case
  proof (cases "sort_key fCost openSet")
    case Nil
    with "1.prems"(2) show ?thesis by (simp add: astarLoop.simps [of goal m openSet])
  next
    case (Cons currentNode rest)
    have "set (sort_key fCost openSet) = set openSet" by simp
    with Cons have mem: "currentNode \<in> set openSet" "set rest \<subseteq> set openSet"
      by auto
    with "1.prems"(1) have cur: "nodeOk m start currentNode" and restOk: "\<forall>n \<in> set rest. nodeOk m start n"
      by auto
    show ?thesis
    proof (cases "node_position currentNode = goal")
      case True
      with Cons "1.prems"(2) have "ps = reconstructPath currentNode"
        by (simp add: astarLoop.simps [of goal m openSet])
      with cur True show ?thesis by (simp add: nodeOk_def)
    next
      case False
      with Cons "1.prems"(2) obtain ns where
        ns: "getNeighbors (node_position currentNode) m = Inr ns"
        and rec: "astarLoop goal m
                    (relaxNeighbors currentNode goal (insert (node_position currentNode) closedSet) ns rest)
                    (insert (node_position currentNode) closedSet) = Inr (Some ps)"
        by (auto simp: astarLoop.simps [of goal m openSet] split: sum.splits)
      have "nodeOk m start (PathNode q (Some currentNode) g h f)" if "q \<in> set ns" for q g h f
        using nodeOk_child [OF cur] ns that by (auto simp: neighbor_def)
      with restOk have "\<forall>n \<in> set (relaxNeighbors currentNode goal
              (insert (node_position currentNode) closedSet) ns rest). nodeOk m start n"
        by (intro relaxNeighbors_invariant) auto
      from "1.IH" [OF Cons False ns this rec] show ?thesis .
    qed
  qed
qed

lemma findPathAStar_path:
  assumes "findPathAStar start goal m = Inr (Some ps)"
  shows "pathFromTo m start goal ps"
proof -
  have "nodeOk m start (PathNode start None 0 (calculateHeuristic start goal)
      (addNumber 0 (calculateHeuristic start goal)))"
    by (simp add: nodeOk_def pathFromTo_single)
  then have "\<forall>n \<in> set [PathNode start None 0 (calculateHeuristic start goal)
      (addNumber 0 (calculateHeuristic start goal))]. nodeOk m start n" by simp
  from astarLoop_path [OF this] assms show ?thesis
    by (simp only: findPathAStar_def)
qed

lemma astarLoop_no_error:
  "rectangular m \<Longrightarrow> \<forall>n \<in> set openSet. inBounds m (node_position n) \<Longrightarrow>
   astarLoop goal m openSet closedSet \<noteq> Inl e"
proof (induction goal m openSet closedSet rule: astarLoop.induct)
  case (1 goal m openSet closedSet)
  note rect = "1.prems"(1) and prem = "1.prems"(2)
  show ?case
  proof (cases "sort_key fCost openSet")
    case Nil
    then show ?thesis by (simp add: astarLoop.simps [of goal m openSet])
  next
    case (Cons currentNode rest)
    have "set (sort_key fCost openSet) = set openSet" by simp
    with Cons have mem: "currentNode \<in> set openSet" "set rest \<subseteq> set openSet"
      by auto
    with prem have cur: "inBounds m (node_position currentNode)"
      and restOk: "\<forall>n \<in> set rest. inBounds m (node_position n)"
      by auto
    show ?thesis
    proof (cases "node_position currentNode = goal")
      case True
      with Cons show ?thesis by (simp add: astarLoop.simps [of goal m openSet])
    next
      case False
      from getNeighbors_exact [OF rect cur] obtain ns where
        ns: "getNeighbors (node_position currentNode) m = Inr ns"
        and inb: "\<forall>q \<in> set ns. inBounds m q"
        by blast
      from restOk inb have "\<forall>n \<in> set (relaxNeighbors currentNode goal
              (insert (node_position currentNode) closedSet) ns rest). inBounds m (node_position n)"
        by (intro relaxNeighbors_invariant) auto
      from "1.IH" [OF Cons False ns rect this] Cons False ns show ?thesis
        by (simp add: astarLoop.simps [of goal m openSet])
    qed
  qed
qed

lemma findPathAStar_no_error:
  assumes "rectangular m" "inBounds m start"
  shows "findPathAStar start goal m \<noteq> Inl e"
  unfolding findPathAStar_def by (rule astarLoop_no_error [OF assms(1)]) (simp add: assms(2))

section \<open>Replanning (recalculateBlockedPaths)\<close>








lemma scanOrder_set:
  "set (scanOrder m) = {(x, y, f). x < length m \<and> y < length (m ! 0) \<and> f < length (m ! 0 ! 0)}"
  by (force simp: scanOrder_def)

lemma scanOrder_inBounds:
  assumes "rectangular m" "(x, y, f) \<in> set (scanOrder m)"
  shows "inBounds m \<lparr>pos_x = int x, pos_y = int y, pos_floor = int f\<rparr>"
proof -
  from assms(2) have "isValidMapPosition (int x) (int y) (int f) m"
    by (simp add: scanOrder_set isValidMapPosition_def)
  with valid_iff_kindAt [OF assms(1)] show ?thesis by (simp add: inBounds_def)
qed











text \<open>
  A row of five cells with an exit in the middle and a wall next to it; one person at the
  near end and one behind the wall, both without a path.
\<close>

definition lobby :: Building where
  "lobby =
     \<lparr>buildingMap = [[[WALKABLE]], [[WALKABLE]], [[EXIT]], [[WALL]], [[WALKABLE]]],
      firePositions = [],
      people =
        [\<lparr>person_id = ''a'', person_name = ''Ada'',
          person_position = \<lparr>pos_x = 0, pos_y = 0, pos_floor = 0\<rparr>, targetPosition = None,
          person_path = [], currentPathIndex = 0, isEvacuated = False, movementSpeed = 1,
          trapped = None\<rparr>,
         \<lparr>person_id = ''b'', person_name = ''Bob'',
          person_position = \<lparr>pos_x = 4, pos_y = 0, pos_floor = 0\<rparr>, targetPosition = None,
          person_path = [], currentPathIndex = 0, isEvacuated = False, movementSpeed = 1,
          trapped = None\<rparr>],
      timestep = 0, isSimulationRunning = True, fireSpreadRate = 1 / 10\<rparr>"

lemma recalculate_lobby:
  "recalculateBlockedPaths lobby =
     (lobby\<lparr>people :=
        [\<lparr>person_id = ''a'', person_name = ''Ada'',
          person_position = \<lparr>pos_x = 0, pos_y = 0, pos_floor = 0\<rparr>, targetPosition = None,
          person_path = [\<lparr>pos_x = 0, pos_y = 0, pos_floor = 0\<rparr>, \<lparr>pos_x = 1, pos_y = 0, pos_floor = 0\<rparr>,
                         \<lparr>pos_x = 2, pos_y = 0, pos_floor = 0\<rparr>],
          currentPathIndex = 0, isEvacuated = False, movementSpeed = 1, trapped = Some False\<rparr>,
         \<lparr>person_id = ''b'', person_name = ''Bob'',
          person_position = \<lparr>pos_x = 4, pos_y = 0, pos_floor = 0\<rparr>, targetPosition = None,
          person_path = [], currentPathIndex = 0, isEvacuated = False, movementSpeed = 1,
          trapped = Some True\<rparr>]\<rparr>, None)"
  by (simp add: recalculateBlockedPaths_def lobby_def getExitPositions_def scanOrder_def
      recalculatePerson_def findPathAStar_def astarLoop.simps grid_eval Let_def)


section \<open>Where the searches do not do what the specification says\<close>

declare bidirectionalLoop.simps [simp del]
declare breed.simps [simp del]

lemma walk_walled:
  "findPathRandomWalk \<lparr>pos_x = 0, pos_y = 0, pos_floor = 0\<rparr> \<lparr>pos_x = 2, pos_y = 0, pos_floor = 0\<rparr>
     walled (Suc n) rnd = (Inr None, rnd)"
  by (simp add: findPathRandomWalk_def walled_def grid_eval)

lemma gaInit_walled:
  "gaInit n \<lparr>pos_x = 0, pos_y = 0, pos_floor = 0\<rparr> \<lparr>pos_x = 2, pos_y = 0, pos_floor = 0\<rparr> walled rnd
     = (Inr [], rnd)"
  by (induction n) (simp_all add: walk_walled [of 99, simplified])

lemma no_path_in_walled:
  "\<not> (\<exists>ps. pathFromTo walled \<lparr>pos_x = 0, pos_y = 0, pos_floor = 0\<rparr> \<lparr>pos_x = 2, pos_y = 0, pos_floor = 0\<rparr> ps)"
proof
  assume "\<exists>ps. pathFromTo walled \<lparr>pos_x = 0, pos_y = 0, pos_floor = 0\<rparr> \<lparr>pos_x = 2, pos_y = 0, pos_floor = 0\<rparr> ps"
  then obtain ps where ps: "pathFromTo walled \<lparr>pos_x = 0, pos_y = 0, pos_floor = 0\<rparr> \<lparr>pos_x = 2, pos_y = 0, pos_floor = 0\<rparr> ps"
    by blast
  have nb: "getNeighbors \<lparr>pos_x = 0, pos_y = 0, pos_floor = 0\<rparr> walled = Inr []"
    by (simp add: walled_def grid_eval)
  from ps obtain qs where eq: "ps = \<lparr>pos_x = 0, pos_y = 0, pos_floor = 0\<rparr> # qs"
    by (cases ps) (auto simp: pathFromTo_def)
  show False
  proof (cases qs)
    case Nil
    with ps eq show False by (simp add: pathFromTo_def)
  next
    case (Cons q qs')
    with ps eq have "neighbor walled \<lparr>pos_x = 0, pos_y = 0, pos_floor = 0\<rparr> q"
      by (simp add: pathFromTo_def)
    with nb show False by (simp add: neighbor_def)
  qed
qed

text \<open>
  Claim C3 (the code does not do this). In the sample \<open>walled\<close> the goal (2,0,0) cannot
  be reached from (0,0,0). \<^verbatim>\<open>findPathGA\<close> with its default population size and
  generation count does not return \<^verbatim>\<open>null\<close> there: every random walk fails, the
  population is empty, and \<^verbatim>\<open>parent1.length\<close> raises a \<^verbatim>\<open>TypeError\<close>, whatever the
  random draws are. A* and breadth-first search return \<^verbatim>\<open>null\<close> there.
\<close>

theorem findPathGA_raises_when_unreachable:
  "(\<forall>rnd. fst (findPathGA \<lparr>pos_x = 0, pos_y = 0, pos_floor = 0\<rparr> \<lparr>pos_x = 2, pos_y = 0, pos_floor = 0\<rparr>
               walled 10 10 rnd) = Inl TypeError) \<and>
   \<not> (\<exists>ps. pathFromTo walled \<lparr>pos_x = 0, pos_y = 0, pos_floor = 0\<rparr> \<lparr>pos_x = 2, pos_y = 0, pos_floor = 0\<rparr> ps) \<and>
   findPathAStar \<lparr>pos_x = 0, pos_y = 0, pos_floor = 0\<rparr> \<lparr>pos_x = 2, pos_y = 0, pos_floor = 0\<rparr> walled = Inr None \<and>
   findPathBFS \<lparr>pos_x = 0, pos_y = 0, pos_floor = 0\<rparr> \<lparr>pos_x = 2, pos_y = 0, pos_floor = 0\<rparr> walled = Inr None"
proof (intro conjI allI)
  show "findPathAStar \<lparr>pos_x = 0, pos_y = 0, pos_floor = 0\<rparr> \<lparr>pos_x = 2, pos_y = 0, pos_floor = 0\<rparr> walled = Inr None"
    by (simp add: findPathAStar_def astarLoop.simps walled_def grid_eval)
  show "findPathBFS \<lparr>pos_x = 0, pos_y = 0, pos_floor = 0\<rparr> \<lparr>pos_x = 2, pos_y = 0, pos_floor = 0\<rparr> walled = Inr None"
    by (simp add: findPathBFS_def walled_def grid_eval)
next
  fix rnd
  show "fst (findPathGA \<lparr>pos_x = 0, pos_y = 0, pos_floor = 0\<rparr> \<lparr>pos_x = 2, pos_y = 0, pos_floor = 0\<rparr>
               walled 10 10 rnd) = Inl TypeError"
    by (simp add: findPathGA_def gaInit_walled eval_nat_numeral sortPopulation_def memberAt_def
        at_index_def Let_def breed.simps mulNumber_def)
next
  show "\<not> (\<exists>ps. pathFromTo walled \<lparr>pos_x = 0, pos_y = 0, pos_floor = 0\<rparr> \<lparr>pos_x = 2, pos_y = 0, pos_floor = 0\<rparr> ps)"
    by (rule no_path_in_walled)
qed

text \<open>
  Claim C4 (the code does not do this). In the corridor, \<^verbatim>\<open>findPathBidirectional\<close> from
  (0,0,0) to the exit (2,0,0) returns the two positions (0,0,0), (1,0,0): the sequence does
  not end at the goal, so it is not a path from start to goal. The splice
  \<^verbatim>\<open>[...pathS, ...pathG.slice(0, -1).reverse()]\<close> drops the last position of the
  goal-side path, which is the position next to the meeting point.
\<close>

theorem findPathBidirectional_misses_goal:
  "findPathBidirectional \<lparr>pos_x = 0, pos_y = 0, pos_floor = 0\<rparr> \<lparr>pos_x = 2, pos_y = 0, pos_floor = 0\<rparr> corridor
     = Inr (Some [\<lparr>pos_x = 0, pos_y = 0, pos_floor = 0\<rparr>, \<lparr>pos_x = 1, pos_y = 0, pos_floor = 0\<rparr>]) \<and>
   \<not> pathFromTo corridor \<lparr>pos_x = 0, pos_y = 0, pos_floor = 0\<rparr> \<lparr>pos_x = 2, pos_y = 0, pos_floor = 0\<rparr>
         [\<lparr>pos_x = 0, pos_y = 0, pos_floor = 0\<rparr>, \<lparr>pos_x = 1, pos_y = 0, pos_floor = 0\<rparr>] \<and>
   findPathBFS \<lparr>pos_x = 0, pos_y = 0, pos_floor = 0\<rparr> \<lparr>pos_x = 2, pos_y = 0, pos_floor = 0\<rparr> corridor
     = Inr (Some [\<lparr>pos_x = 0, pos_y = 0, pos_floor = 0\<rparr>, \<lparr>pos_x = 1, pos_y = 0, pos_floor = 0\<rparr>,
                  \<lparr>pos_x = 2, pos_y = 0, pos_floor = 0\<rparr>])"
  by (simp add: findPathBidirectional_def bidirectionalLoop.simps findPathBFS_def corridor_def
      grid_eval pathFromTo_def)

text \<open>
  Claim C5 (the code does not do this). With start = goal = (0,0,0), a Walkable cell of
  the corridor, \<^verbatim>\<open>findPathBidirectional\<close> returns the two positions (0,0,0), (1,0,0) and
  not the one-element path; A* and breadth-first search return the one-element path.
\<close>

theorem findPathBidirectional_start_is_goal:
  "kindAt corridor \<lparr>pos_x = 0, pos_y = 0, pos_floor = 0\<rparr> = Some WALKABLE \<and>
   findPathBidirectional \<lparr>pos_x = 0, pos_y = 0, pos_floor = 0\<rparr> \<lparr>pos_x = 0, pos_y = 0, pos_floor = 0\<rparr> corridor
     = Inr (Some [\<lparr>pos_x = 0, pos_y = 0, pos_floor = 0\<rparr>, \<lparr>pos_x = 1, pos_y = 0, pos_floor = 0\<rparr>]) \<and>
   findPathAStar \<lparr>pos_x = 0, pos_y = 0, pos_floor = 0\<rparr> \<lparr>pos_x = 0, pos_y = 0, pos_floor = 0\<rparr> corridor
     = Inr (Some [\<lparr>pos_x = 0, pos_y = 0, pos_floor = 0\<rparr>]) \<and>
   findPathBFS \<lparr>pos_x = 0, pos_y = 0, pos_floor = 0\<rparr> \<lparr>pos_x = 0, pos_y = 0, pos_floor = 0\<rparr> corridor
     = Inr (Some [\<lparr>pos_x = 0, pos_y = 0, pos_floor = 0\<rparr>])"
  by (simp add: findPathBidirectional_def bidirectionalLoop.simps findPathBFS_def findPathAStar_def
      astarLoop.simps corridor_def grid_eval kindAt_def)

section \<open>Breadth-first search returns a shortest path\<close>

text \<open>The number of moves of a path.\<close>

definition steps :: "Position list \<Rightarrow> nat" where
  "steps ps = length ps - 1"

text \<open>
  The invariant of the loop of \<^verbatim>\<open>findPathBFS\<close>: every queue entry carries a path from
  the start to its position; the paths get longer along the queue, by at most one
  position in all; and every path from start to goal has a position that waits in the
  queue with a path no longer than the way to it, after which nothing is visited yet.
\<close>

definition bfsInv ::
  "grid \<Rightarrow> Position \<Rightarrow> Position \<Rightarrow> (Position \<times> Position list) list \<Rightarrow> Position set \<Rightarrow> bool" where
  "bfsInv m start goal queue visited \<longleftrightarrow>
     (\<forall>e \<in> set queue. pathFromTo m start (fst e) (snd e)) \<and>
     sorted (map (\<lambda>e. length (snd e)) queue) \<and>
     (\<forall>e \<in> set queue. length (snd e) \<le> Suc (length (snd (hd queue)))) \<and>
     (\<forall>w. pathFromTo m start goal w \<longrightarrow>
        (\<exists>i < length w. \<exists>p. (w ! i, p) \<in> set queue \<and> length p \<le> Suc i \<and>
           (\<forall>j. i \<le> j \<and> j < length w \<longrightarrow> w ! j \<notin> visited)))"

lemma successively_nth:
  "successively P xs \<Longrightarrow> Suc i < length xs \<Longrightarrow> P (xs ! i) (xs ! Suc i)"
proof (induction xs arbitrary: i)
  case Nil
  then show ?case by simp
next
  case (Cons x xs)
  then obtain y ys where xs: "xs = y # ys" by (cases xs) auto
  show ?case
  proof (cases i)
    case 0
    with Cons.prems xs show ?thesis by simp
  next
    case (Suc k)
    with Cons.prems xs have "successively P xs" "Suc k < length xs" by simp_all
    from Cons.IH [OF this] Suc show ?thesis by simp
  qed
qed

lemma in_set_nonempty: "e \<in> set xs \<Longrightarrow> xs \<noteq> []"
  by auto

lemma sorted_map_const: "\<forall>e \<in> set xs. f e = (c::nat) \<Longrightarrow> sorted (map f xs)"
  by (induction xs) auto

lemma bfsInv_init: "bfsInv m start goal [(start, [start])] {}"
proof -
  have "\<exists>i < length w. \<exists>p. (w ! i, p) \<in> set [(start, [start])] \<and> length p \<le> Suc i \<and>
           (\<forall>j. i \<le> j \<and> j < length w \<longrightarrow> w ! j \<notin> {})"
    if "pathFromTo m start goal w" for w
  proof -
    from that have "0 < length w" "w ! 0 = start"
      by (auto simp: pathFromTo_def hd_conv_nth)
    then show ?thesis by (intro exI [of _ 0]) simp
  qed
  then show ?thesis by (simp add: bfsInv_def pathFromTo_single)
qed

lemma bfsInv_goal:
  assumes "bfsInv m start goal ((goal, ps) # rest) visited"
  shows "pathFromTo m start goal ps \<and> (\<forall>w. pathFromTo m start goal w \<longrightarrow> length ps \<le> length w)"
proof (intro conjI allI impI)
  from assms show "pathFromTo m start goal ps" by (simp add: bfsInv_def)
next
  fix w assume "pathFromTo m start goal w"
  with assms obtain i p where i: "i < length w" and p: "(w ! i, p) \<in> set ((goal, ps) # rest)"
    and le: "length p \<le> Suc i"
    unfolding bfsInv_def by blast
  from assms have "sorted (map (\<lambda>e. length (snd e)) ((goal, ps) # rest))" by (simp add: bfsInv_def)
  with p have "length ps \<le> length p" by auto
  with le i show "length ps \<le> length w" by simp
qed

lemma bfsInv_skip:
  assumes inv: "bfsInv m start goal ((pos, ps) # rest) visited" and vis: "pos \<in> visited"
  shows "bfsInv m start goal rest visited"
  unfolding bfsInv_def
proof (intro conjI allI impI)
  from inv show "\<forall>e \<in> set rest. pathFromTo m start (fst e) (snd e)" by (simp add: bfsInv_def)
  from inv have srt: "sorted (map (\<lambda>e. length (snd e)) ((pos, ps) # rest))" by (simp add: bfsInv_def)
  then show "sorted (map (\<lambda>e. length (snd e)) rest)" by simp
  show "\<forall>e \<in> set rest. length (snd e) \<le> Suc (length (snd (hd rest)))"
  proof
    fix e assume e: "e \<in> set rest"
    then have "hd rest \<in> set rest" by (cases rest) auto
    with srt have "length ps \<le> length (snd (hd rest))" by auto
    moreover from inv e have "length (snd e) \<le> Suc (length ps)" by (simp add: bfsInv_def)
    ultimately show "length (snd e) \<le> Suc (length (snd (hd rest)))" by simp
  qed
next
  fix w assume "pathFromTo m start goal w"
  with inv obtain i p where i: "i < length w" and p: "(w ! i, p) \<in> set ((pos, ps) # rest)"
    and le: "length p \<le> Suc i" and nv: "\<forall>j. i \<le> j \<and> j < length w \<longrightarrow> w ! j \<notin> visited"
    unfolding bfsInv_def by blast
  from nv i have "w ! i \<notin> visited" by simp
  with vis have "w ! i \<noteq> pos" by auto
  with p have "(w ! i, p) \<in> set rest" by simp
  with i le nv show "\<exists>i < length w. \<exists>p. (w ! i, p) \<in> set rest \<and> length p \<le> Suc i \<and>
           (\<forall>j. i \<le> j \<and> j < length w \<longrightarrow> w ! j \<notin> visited)" by blast
qed

lemma bfsInv_expand:
  assumes inv: "bfsInv m start goal ((pos, ps) # rest) visited"
    and ng: "pos \<noteq> goal" and nv: "pos \<notin> visited" and ns: "getNeighbors pos m = Inr ns"
  shows "bfsInv m start goal
           (rest @ map (\<lambda>neighbor. (neighbor, ps @ [neighbor]))
                     (filter (\<lambda>neighbor. neighbor \<notin> insert pos visited) ns))
           (insert pos visited)"
proof -
  let ?new = "map (\<lambda>neighbor. (neighbor, ps @ [neighbor]))
                (filter (\<lambda>neighbor. neighbor \<notin> insert pos visited) ns)"
  from inv have paths: "\<forall>e \<in> set rest. pathFromTo m start (fst e) (snd e)"
    and head: "pathFromTo m start pos ps"
    and srt: "sorted (map (\<lambda>e. length (snd e)) ((pos, ps) # rest))"
    and bound: "\<forall>e \<in> set rest. length (snd e) \<le> Suc (length ps)"
    by (simp_all add: bfsInv_def)
  from srt have low: "\<forall>e \<in> set rest. length ps \<le> length (snd e)" by auto
  have newlen: "\<forall>e \<in> set ?new. length (snd e) = Suc (length ps)" by auto
  have c1: "\<forall>e \<in> set (rest @ ?new). pathFromTo m start (fst e) (snd e)"
  proof
    fix e assume "e \<in> set (rest @ ?new)"
    then consider "e \<in> set rest" | "e \<in> set ?new" by auto
    then show "pathFromTo m start (fst e) (snd e)"
    proof cases
      case 1
      with paths show ?thesis by simp
    next
      case 2
      then obtain n where n: "n \<in> set ns" "e = (n, ps @ [n])" by auto
      with ns have "neighbor m pos n" by (auto simp: neighbor_def)
      from pathFromTo_extend [OF head this] n show ?thesis by simp
    qed
  qed
  have c2: "sorted (map (\<lambda>e. length (snd e)) (rest @ ?new))"
  proof -
    have "sorted (map (\<lambda>e. length (snd e)) rest)" using srt by simp
    moreover have "sorted (map (\<lambda>e. length (snd e)) ?new)"
      using newlen by (rule sorted_map_const)
    moreover have "\<forall>a \<in> set (map (\<lambda>e. length (snd e)) rest).
        \<forall>b \<in> set (map (\<lambda>e. length (snd e)) ?new). a \<le> b"
      using bound by auto
    ultimately show ?thesis by (simp add: sorted_append del: map_map)
  qed
  have c3: "\<forall>e \<in> set (rest @ ?new). length (snd e) \<le> Suc (length (snd (hd (rest @ ?new))))"
  proof
    fix e assume e: "e \<in> set (rest @ ?new)"
    then have "rest @ ?new \<noteq> []" by (rule in_set_nonempty)
    then have "hd (rest @ ?new) \<in> set (rest @ ?new)" by (rule hd_in_set)
    then have "hd (rest @ ?new) \<in> set rest \<or> hd (rest @ ?new) \<in> set ?new"
      by (simp only: set_append Un_iff)
    then have "length ps \<le> length (snd (hd (rest @ ?new)))"
    proof
      assume "hd (rest @ ?new) \<in> set rest"
      with low show ?thesis by (rule bspec)
    next
      assume "hd (rest @ ?new) \<in> set ?new"
      with newlen have "length (snd (hd (rest @ ?new))) = Suc (length ps)" by (rule bspec)
      then show ?thesis by simp
    qed
    moreover from e have "e \<in> set rest \<or> e \<in> set ?new"
      by (simp only: set_append Un_iff)
    then have "length (snd e) \<le> Suc (length ps)"
    proof
      assume "e \<in> set rest"
      with bound show ?thesis by (rule bspec)
    next
      assume "e \<in> set ?new"
      with newlen have "length (snd e) = Suc (length ps)" by (rule bspec)
      then show ?thesis by simp
    qed
    ultimately show "length (snd e) \<le> Suc (length (snd (hd (rest @ ?new))))" by simp
  qed
  have c4: "\<exists>i < length w. \<exists>p. (w ! i, p) \<in> set (rest @ ?new) \<and> length p \<le> Suc i \<and>
           (\<forall>j. i \<le> j \<and> j < length w \<longrightarrow> w ! j \<notin> insert pos visited)"
    if w: "pathFromTo m start goal w" for w
  proof -
    from inv w obtain i p where i: "i < length w" and p: "(w ! i, p) \<in> set ((pos, ps) # rest)"
      and le: "length p \<le> Suc i" and unv: "\<forall>j. i \<le> j \<and> j < length w \<longrightarrow> w ! j \<notin> visited"
      unfolding bfsInv_def by blast
    from p srt have pl: "length ps \<le> length p" by auto
    show ?thesis
    proof (cases "\<exists>j. i \<le> j \<and> j < length w \<and> w ! j = pos")
      case False
      with i have "w ! i \<noteq> pos" by auto
      with p have "(w ! i, p) \<in> set (rest @ ?new)" by simp
      moreover from False unv have "\<forall>j. i \<le> j \<and> j < length w \<longrightarrow> w ! j \<notin> insert pos visited"
        by auto
      ultimately show ?thesis using i le by blast
    next
      case True
      define J where "J = {j. i \<le> j \<and> j < length w \<and> w ! j = pos}"
      have fin: "finite J" and ne: "J \<noteq> {}" using True by (auto simp: J_def)
      define k where "k = Max J"
      from Max_in [OF fin ne] have k: "i \<le> k" "k < length w" "w ! k = pos"
        by (auto simp: J_def k_def)
      have kmax: "\<And>j. j \<in> J \<Longrightarrow> j \<le> k" using fin by (simp add: k_def)
      from w have "w \<noteq> []" "last w = goal" by (auto simp: pathFromTo_def)
      then have "w ! (length w - 1) = goal" by (simp add: last_conv_nth)
      with k ng have "k \<noteq> length w - 1" by auto
      with k have sk: "Suc k < length w" by simp
      from w have "successively (neighbor m) w" by (simp add: pathFromTo_def)
      from successively_nth [OF this sk] k have "neighbor m pos (w ! Suc k)" by simp
      with ns have mem: "w ! Suc k \<in> set ns" by (auto simp: neighbor_def)
      have later: "w ! j \<notin> insert pos visited" if "Suc k \<le> j" "j < length w" for j
      proof -
        from that k have "i \<le> j" by simp
        with unv that have "w ! j \<notin> visited" by simp
        moreover have "w ! j \<noteq> pos"
        proof
          assume "w ! j = pos"
          with \<open>i \<le> j\<close> that have "j \<in> J" by (simp add: J_def)
          from kmax [OF this] that show False by simp
        qed
        ultimately show ?thesis by simp
      qed
      from later [of "Suc k"] sk have "w ! Suc k \<notin> insert pos visited" by simp
      with mem have "(w ! Suc k, ps @ [w ! Suc k]) \<in> set ?new" by auto
      then have "(w ! Suc k, ps @ [w ! Suc k]) \<in> set (rest @ ?new)" by simp
      moreover from pl le k have "length (ps @ [w ! Suc k]) \<le> Suc (Suc k)" by simp
      ultimately show ?thesis using sk later by blast
    qed
  qed
  from c1 c2 c3 c4 show ?thesis unfolding bfsInv_def by blast
qed

lemma bfsLoop_shortest:
  "bfsInv m start goal queue visited \<Longrightarrow> bfsLoop goal m queue visited = Inr (Some ps) \<Longrightarrow>
   pathFromTo m start goal ps \<and> (\<forall>w. pathFromTo m start goal w \<longrightarrow> length ps \<le> length w)"
proof (induction goal m queue visited rule: bfsLoop.induct)
  case (1 goal m visited)
  then show ?case by simp
next
  case (2 goal m pos path queue visited)
  show ?case
  proof (cases "pos = goal")
    case True
    with "2.prems" have "ps = path" by simp
    with True "2.prems"(1) bfsInv_goal show ?thesis by blast
  next
    case ng: False
    show ?thesis
    proof (cases "pos \<in> visited")
      case True
      with ng "2.prems"(2) have "bfsLoop goal m queue visited = Inr (Some ps)" by simp
      from "2.IH"(1) [OF ng True bfsInv_skip [OF "2.prems"(1) True] this] show ?thesis .
    next
      case False
      with ng "2.prems"(2) obtain ns where ns: "getNeighbors pos m = Inr ns"
        and rec: "bfsLoop goal m
                    (queue @ map (\<lambda>neighbor. (neighbor, path @ [neighbor]))
                               (filter (\<lambda>neighbor. neighbor \<notin> insert pos visited) ns))
                    (insert pos visited) = Inr (Some ps)"
        by (auto split: sum.splits)
      from "2.IH"(2) [OF ng False ns bfsInv_expand [OF "2.prems"(1) ng False ns] rec]
      show ?thesis .
    qed
  qed
qed

text \<open>
  Claim C7. A path returned by \<^verbatim>\<open>findPathBFS\<close> is a path from start to goal in the
  neighbour graph, and no path from start to goal in that graph has fewer moves.
\<close>

theorem findPathBFS_shortest:
  assumes "findPathBFS start goal m = Inr (Some ps)"
  shows "pathFromTo m start goal ps \<and>
         (\<forall>w. pathFromTo m start goal w \<longrightarrow> steps ps \<le> steps w)"
proof -
  from bfsLoop_shortest [OF bfsInv_init] assms
  have "pathFromTo m start goal ps \<and> (\<forall>w. pathFromTo m start goal w \<longrightarrow> length ps \<le> length w)"
    by (simp add: findPathBFS_def)
  then show ?thesis by (auto simp: steps_def)
qed

theorem findPathBFS_shortest_witness:
  "findPathBFS \<lparr>pos_x = 0, pos_y = 0, pos_floor = 0\<rparr> \<lparr>pos_x = 2, pos_y = 0, pos_floor = 0\<rparr> corridor
     = Inr (Some [\<lparr>pos_x = 0, pos_y = 0, pos_floor = 0\<rparr>, \<lparr>pos_x = 1, pos_y = 0, pos_floor = 0\<rparr>,
                  \<lparr>pos_x = 2, pos_y = 0, pos_floor = 0\<rparr>]) \<and>
   pathFromTo corridor \<lparr>pos_x = 0, pos_y = 0, pos_floor = 0\<rparr> \<lparr>pos_x = 2, pos_y = 0, pos_floor = 0\<rparr>
     [\<lparr>pos_x = 0, pos_y = 0, pos_floor = 0\<rparr>, \<lparr>pos_x = 1, pos_y = 0, pos_floor = 0\<rparr>,
      \<lparr>pos_x = 2, pos_y = 0, pos_floor = 0\<rparr>] \<and>
   steps [\<lparr>pos_x = 0, pos_y = 0, pos_floor = 0\<rparr>, \<lparr>pos_x = 1, pos_y = 0, pos_floor = 0\<rparr>,
          \<lparr>pos_x = 2, pos_y = 0, pos_floor = 0\<rparr>] = 2"
proof -
  have run: "findPathBFS \<lparr>pos_x = 0, pos_y = 0, pos_floor = 0\<rparr> \<lparr>pos_x = 2, pos_y = 0, pos_floor = 0\<rparr> corridor
     = Inr (Some [\<lparr>pos_x = 0, pos_y = 0, pos_floor = 0\<rparr>, \<lparr>pos_x = 1, pos_y = 0, pos_floor = 0\<rparr>,
                  \<lparr>pos_x = 2, pos_y = 0, pos_floor = 0\<rparr>])"
    by (simp add: findPathBFS_def corridor_def grid_eval)
  from findPathBFS_shortest [OF run] run show ?thesis
    by (auto simp: steps_def)
qed

section \<open>The other deterministic searches (findPathDFS, findPathGreedyBestFirst, findPathAStarWeighted, findPathAnytimeAStar)\<close>




















section \<open>Dijkstra search (findPathDijkstra)\<close>

text \<open>
  \<^verbatim>\<open>findPathDijkstra\<close>. A distance is a number or \<^verbatim>\<open>Infinity\<close>. \<^verbatim>\<open>distances\<close> and
  \<^verbatim>\<open>previous\<close> are maps keyed by position, \<^verbatim>\<open>unvisited\<close> a set in insertion order.
\<close>

datatype distance = Finite number | Infinity

fun lessDistance :: "distance \<Rightarrow> distance \<Rightarrow> bool" where
  "lessDistance (Finite a) (Finite b) = (a < b)"
| "lessDistance (Finite a) Infinity = True"
| "lessDistance Infinity d = False"

fun addCost :: "distance \<Rightarrow> number \<Rightarrow> distance" where
  "addCost (Finite a) c = Finite (addNumber a c)"
| "addCost Infinity c = Infinity"

text \<open>
  \<^verbatim>\<open>distances.get(key) || Infinity\<close> and \<^verbatim>\<open>distances.get(key) || 0\<close>: \<^verbatim>\<open>undefined\<close> and
  the number 0 are both falsy.
\<close>

fun orInfinity :: "distance option \<Rightarrow> distance" where
  "orInfinity None = Infinity"
| "orInfinity (Some (Finite a)) = (if a = 0 then Infinity else Finite a)"
| "orInfinity (Some Infinity) = Infinity"

fun orZero :: "distance option \<Rightarrow> distance" where
  "orZero None = Finite 0"
| "orZero (Some d) = d"

text \<open>The initial scan: the cells that are Walkable, Stairs or Exit, in scan order.\<close>

fun collectOpenCells :: "grid \<Rightarrow> (nat \<times> nat \<times> nat) list \<Rightarrow> error + Position list" where
  "collectOpenCells m [] = Inr []"
| "collectOpenCells m ((x, y, f) # rest) =
     (case readCell m (int x) (int y) (int f) of
        Inl e \<Rightarrow> Inl e
      | Inr c \<Rightarrow>
          (case collectOpenCells m rest of
             Inl e \<Rightarrow> Inl e
           | Inr ps \<Rightarrow>
               Inr (if c = Some WALKABLE \<or> c = Some STAIRS \<or> c = Some EXIT
                    then \<lparr>pos_x = int x, pos_y = int y, pos_floor = int f\<rparr> # ps
                    else ps)))"

text \<open>
  The scan for the unvisited position of minimum distance; \<open>None\<close> stands for the empty
  string \<^verbatim>\<open>currentKey\<close> starts as.
\<close>

fun scanMinimum ::
  "(Position \<rightharpoonup> distance) \<Rightarrow> Position list \<Rightarrow> Position option \<Rightarrow> distance \<Rightarrow> Position option" where
  "scanMinimum distances [] currentKey minDistance = currentKey"
| "scanMinimum distances (key # rest) currentKey minDistance =
     (let d = orInfinity (distances key)
      in if lessDistance d minDistance then scanMinimum distances rest (Some key) d
         else scanMinimum distances rest currentKey minDistance)"

text \<open>The loop over the neighbours of the current position.\<close>

fun relaxDijkstra ::
  "Position \<Rightarrow> Position list \<Rightarrow> Position list \<Rightarrow> (Position \<rightharpoonup> distance) \<Rightarrow> (Position \<rightharpoonup> Position) \<Rightarrow>
   (Position \<rightharpoonup> distance) \<times> (Position \<rightharpoonup> Position)" where
  "relaxDijkstra currentPos unvisited [] distances previous = (distances, previous)"
| "relaxDijkstra currentPos unvisited (neighborPos # rest) distances previous =
     (if neighborPos \<notin> set unvisited then relaxDijkstra currentPos unvisited rest distances previous
      else
        (let altDistance = addCost (orZero (distances currentPos))
                             (getMovementCost currentPos neighborPos)
         in if lessDistance altDistance (orInfinity (distances neighborPos))
            then relaxDijkstra currentPos unvisited rest
                   (distances(neighborPos \<mapsto> altDistance)) (previous(neighborPos \<mapsto> currentPos))
            else relaxDijkstra currentPos unvisited rest distances previous))"

text \<open>
  \<^verbatim>\<open>reconstructPathDijkstra\<close>: the loop follows \<^verbatim>\<open>previous\<close> until it meets the start or
  a position without predecessor; on a cyclic map it does not return (\<open>None\<close>).
\<close>

partial_function (option) reconstructLoop ::
  "Position \<Rightarrow> (Position \<rightharpoonup> Position) \<Rightarrow> Position \<Rightarrow> Position list \<Rightarrow> Position list option" where
  "reconstructLoop start previous current path =
     (if current = start then Some (start # path)
      else (case previous current of
              None \<Rightarrow> Some (start # current # path)
            | Some prev \<Rightarrow> reconstructLoop start previous prev (current # path)))"

definition reconstructPathDijkstra ::
  "Position \<Rightarrow> Position \<Rightarrow> (Position \<rightharpoonup> Position) \<Rightarrow> Position list option" where
  "reconstructPathDijkstra start goal previous = reconstructLoop start previous goal []"

lemma scanMinimum_member:
  "scanMinimum distances keys currentKey minDistance = Some k \<Longrightarrow>
   k \<in> set keys \<or> currentKey = Some k"
  by (induction keys arbitrary: currentKey minDistance) (auto simp: Let_def split: if_splits)

text \<open>The main loop; \<open>None\<close> where the path reconstruction does not return.\<close>

function dijkstraLoop ::
  "Position \<Rightarrow> Position \<Rightarrow> grid \<Rightarrow> (Position \<rightharpoonup> distance) \<Rightarrow> (Position \<rightharpoonup> Position) \<Rightarrow> Position list \<Rightarrow>
   (error + Position list option) option" where
  "dijkstraLoop start goal m distances previous unvisited =
     (if length unvisited > 0
      then (case scanMinimum distances unvisited None Infinity of
              None \<Rightarrow> Some (Inr None)
            | Some currentPos \<Rightarrow>
                (if currentPos = goal
                 then (case reconstructPathDijkstra start goal previous of
                         None \<Rightarrow> None
                       | Some path \<Rightarrow> Some (Inr (Some path)))
                 else (case getNeighbors currentPos m of
                         Inl e \<Rightarrow> Some (Inl e)
                       | Inr neighbors \<Rightarrow>
                           (case relaxDijkstra currentPos (removeAll currentPos unvisited) neighbors
                                   distances previous of
                              (distances', previous') \<Rightarrow>
                                dijkstraLoop start goal m distances' previous'
                                  (removeAll currentPos unvisited)))))
      else Some (Inr None))"
  by pat_completeness auto

termination dijkstraLoop
proof (relation "measure (\<lambda>(start, goal, m, distances, previous, unvisited). length unvisited)",
    goal_cases)
  case 1
  show ?case by simp
next
  case 2
  from scanMinimum_member [OF 2(2)] show ?case by (simp add: length_removeAll_less)
qed

definition findPathDijkstra :: "Position \<Rightarrow> Position \<Rightarrow> grid \<Rightarrow> (error + Position list option) option" where
  "findPathDijkstra start goal m =
     (case collectOpenCells m (scanOrder m) of
        Inl e \<Rightarrow> Some (Inl e)
      | Inr unvisited \<Rightarrow>
          dijkstraLoop start goal m
            ((\<lambda>key. if key \<in> set unvisited then Some Infinity else None)(start \<mapsto> Finite 0))
            Map.empty unvisited)"

text \<open>
  With the start at distance 0 and every other position at \<^verbatim>\<open>Infinity\<close>, no distance is
  below \<^verbatim>\<open>Infinity\<close> once \<^verbatim>\<open>|| Infinity\<close> is applied: the first scan finds nothing.
\<close>

lemma scanMinimum_nothing:
  "\<forall>k \<in> set keys. orInfinity (distances k) = Infinity \<Longrightarrow>
   scanMinimum distances keys None Infinity = None"
  by (induction keys) (simp_all add: Let_def)

declare dijkstraLoop.simps [simp del]

lemma collectOpenCells_inBounds:
  "\<forall>(x, y, f) \<in> set xs. inBounds m \<lparr>pos_x = int x, pos_y = int y, pos_floor = int f\<rparr> \<Longrightarrow>
   \<exists>ps. collectOpenCells m xs = Inr ps"
proof (induction xs)
  case Nil
  then show ?case by simp
next
  case (Cons a xs)
  obtain x y f where a: "a = (x, y, f)" by (cases a)
  from Cons.prems a have "inBounds m \<lparr>pos_x = int x, pos_y = int y, pos_floor = int f\<rparr>" by simp
  from readCell_inBounds [OF this] obtain c where "readCell m (int x) (int y) (int f) = Inr c"
    by simp
  moreover from Cons obtain ps where "collectOpenCells m xs = Inr ps" by auto
  ultimately show ?case by (simp add: a)
qed

lemma findPathDijkstra_null:
  "(findPathDijkstra start goal m = Some (Inr None) \<or>
    (\<exists>e. findPathDijkstra start goal m = Some (Inl e))) \<and>
   (rectangular m \<longrightarrow> findPathDijkstra start goal m = Some (Inr None))"
proof -
  have run: "findPathDijkstra start goal m = Some (Inr None)"
    if "collectOpenCells m (scanOrder m) = Inr unvisited" for unvisited
  proof -
    let ?d = "(\<lambda>key. if key \<in> set unvisited then Some Infinity else None)(start \<mapsto> Finite 0)"
    have "\<forall>k \<in> set unvisited. orInfinity (?d k) = Infinity" by simp
    then have "scanMinimum ?d unvisited None Infinity = None" by (rule scanMinimum_nothing)
    then have "dijkstraLoop start goal m ?d Map.empty unvisited = Some (Inr None)"
      by (simp add: dijkstraLoop.simps [of start goal m ?d])
    with that show ?thesis by (simp add: findPathDijkstra_def)
  qed
  show ?thesis
  proof (intro conjI impI)
    show "findPathDijkstra start goal m = Some (Inr None) \<or>
          (\<exists>e. findPathDijkstra start goal m = Some (Inl e))"
    proof (cases "collectOpenCells m (scanOrder m)")
      case (Inl e)
      then show ?thesis by (simp add: findPathDijkstra_def)
    next
      case (Inr unvisited)
      with run show ?thesis by simp
    qed
  next
    assume r: "rectangular m"
    have "\<forall>(x, y, f) \<in> set (scanOrder m). inBounds m \<lparr>pos_x = int x, pos_y = int y, pos_floor = int f\<rparr>"
      using scanOrder_inBounds [OF r] by auto
    from collectOpenCells_inBounds [OF this] obtain ps where
      "collectOpenCells m (scanOrder m) = Inr ps" by blast
    then show "findPathDijkstra start goal m = Some (Inr None)" by (rule run)
  qed
qed

section \<open>Calling a search twice\<close>










section \<open>More on start = goal and on unreachable goals\<close>

lemma swarmAgent_grows:
  "swarmAgent j goal m agentPos path rnd = (Inr (p, path'), rnd') \<Longrightarrow> length path \<le> length path'"
proof (induction j arbitrary: agentPos path rnd)
  case 0
  then show ?case by simp
next
  case (Suc j)
  show ?case
  proof (cases "getNeighbors agentPos m")
    case (Inl e)
    with Suc.prems show ?thesis by simp
  next
    case (Inr ns)
    show ?thesis
    proof (cases "length ns = 0")
      case True
      with Inr Suc.prems show ?thesis by simp
    next
      case False
      with Inr Suc.prems obtain nxt where nxt: "pick ns (shd rnd) = Some nxt"
        by (auto split: option.splits)
      show ?thesis
      proof (cases "nxt = goal")
        case True
        with Inr False nxt Suc.prems show ?thesis by auto
      next
        case ng: False
        with Inr False nxt Suc.prems have
          "swarmAgent j goal m nxt (path @ [nxt]) (stl rnd) = (Inr (p, path'), rnd')" by simp
        from Suc.IH [OF this] show ?thesis by simp
      qed
    qed
  qed
qed

lemma swarmAgent_steps_first:
  assumes "getNeighbors agentPos m = Inr ns" "ns \<noteq> []"
    and "swarmAgent (Suc j) goal m agentPos path rnd = (Inr (p, path'), rnd')"
  shows "Suc (length path) \<le> length path'"
proof -
  from assms obtain nxt where nxt: "pick ns (shd rnd) = Some nxt"
    by (auto split: option.splits)
  show ?thesis
  proof (cases "nxt = goal")
    case True
    with assms nxt show ?thesis by auto
  next
    case False
    with assms nxt have "swarmAgent j goal m nxt (path @ [nxt]) (stl rnd) = (Inr (p, path'), rnd')"
      by simp
    from swarmAgent_grows [OF this] show ?thesis by simp
  qed
qed

lemma swarmLoop_never_single:
  assumes "getNeighbors start m = Inr ns" "ns \<noteq> []"
  shows "bestPath \<noteq> Some [start] \<Longrightarrow>
         fst (swarmLoop i (Suc j) start goal m bestPath bestLength rnd) \<noteq> Inr (Some [start])"
proof (induction i arbitrary: bestPath bestLength rnd)
  case 0
  then show ?case by simp
next
  case (Suc i)
  obtain r rnd' where ag: "swarmAgent (Suc j) goal m start [start] rnd = (r, rnd')"
    by (cases "swarmAgent (Suc j) goal m start [start] rnd")
  show ?case
  proof (cases r)
    case (Inl e)
    with ag show ?thesis by simp
  next
    case (Inr pp)
    obtain p path' where pp: "pp = (p, path')" by (cases pp)
    from swarmAgent_steps_first [OF assms ag [unfolded Inr pp]] have "2 \<le> length path'" by simp
    then have "Some path' \<noteq> Some [start]" by auto
    from Suc.IH [OF this] Suc.IH [OF Suc.prems] ag Inr pp show ?thesis
      by (simp del: swarmAgent.simps)
  qed
qed

text \<open>
  With start = goal, \<^verbatim>\<open>findPathSwarm\<close> never returns the one-element path when the start
  has a neighbour and \<^verbatim>\<open>iterations\<close> is positive; \<^verbatim>\<open>findPathDijkstra\<close> returns
  \<^verbatim>\<open>null\<close> on every rectangular grid, whatever start and goal are.
\<close>

lemma findPathSwarm_start_is_goal:
  assumes "getNeighbors start m = Inr ns" "ns \<noteq> []"
  shows "fst (findPathSwarm start start m swarmSize (Suc j) rnd) \<noteq> Inr (Some [start])"
  unfolding findPathSwarm_def by (rule swarmLoop_never_single [OF assms]) simp

lemma findPathDijkstra_start_is_goal:
  "rectangular m \<Longrightarrow> findPathDijkstra start start m = Some (Inr None)"
  using findPathDijkstra_null [of start start m] by simp

text \<open>
  On a rectangular grid, A* from a start on the grid raises no error, so it returns
  \<^verbatim>\<open>null\<close> when the goal cannot be reached.
\<close>

lemma findPathAStar_unreachable:
  assumes "rectangular m" "inBounds m start" "\<not> (\<exists>ps. pathFromTo m start goal ps)"
  shows "findPathAStar start goal m = Inr None"
proof (cases "findPathAStar start goal m")
  case (Inl e)
  with findPathAStar_no_error [OF assms(1,2)] show ?thesis by simp
next
  case (Inr r)
  show ?thesis
  proof (cases r)
    case None
    with Inr show ?thesis by simp
  next
    case (Some ps)
    with Inr findPathAStar_path assms(3) show ?thesis by blast
  qed
qed

end
